theory Spec2Isabelle
  imports Complex_Main "HOL-Library.Multiset"
begin

section \<open>Data model of the annotation engine (src/lib/annotate.svelte.ts)\<close>

text \<open>
  JavaScript numbers are IEEE 754 doubles. The model carries them as real numbers and, in
  the functions whose result is claimed to the last bit (the tapped-tempo estimator and the
  clamps of \<open>tryMovePoint\<close>), rounds every arithmetic operation with a function \<open>fl\<close> that
  is a parameter: \<open>binary64\<close> below is the rounding of the doubles, \<open>unrounded\<close> computes over
  the reals. The rest of the engine computes over the reals. A \<open>UserBeat\<close> object is shared
  between the region that lists it and the reverse index \<open>userBeatsById\<close>, and it is mutated
  through both, so user beats live in an explicit store. Every \<open>UserBeat\<close> object is created with a
  fresh value of \<open>nextUserBeatId()\<close>; that id is immutable and unique, and it serves as
  the address of the object in the store. The constant field \<open>markerType\<close> is the type itself.
\<close>

record UserBeat =
  regionIndex :: nat
  isTempoChange :: bool
  time :: real
  localBeatPeriod :: "real option"

record AutoBeat =
  id_auto :: nat
  regionIndex_auto :: nat
  time_auto :: real

text \<open>
  The value of a tapped tempo is \<open>null\<close> (\<open>None\<close>) or an object with two numbers. The only
  non-finite result the estimator produces is the one where both numbers are NaN
  (no candidate distance: \<open>0 / 0\<close>); it is the constructor \<open>EstimateNaN\<close>.
\<close>

datatype TappedValue = Estimate (meanPeriod: real) (stddev: real) | EstimateNaN

datatype Tempo = Tapped "TappedValue option" | Fixed (bpm: real) (phaseOffset: real)

record TempoRegion =
  id_region :: nat
  index :: nat
  userBeats :: "nat list"
  autoBeats :: "AutoBeat list"
  startTime :: real
  endTime :: real
  offbeatsMarked :: bool
  tempo :: Tempo

definition MAX_TEMPO :: real where
  "MAX_TEMPO = 300"

definition MIN_BEAT_SPACING :: real where
  "MIN_BEAT_SPACING = 60 / MAX_TEMPO"

datatype SavedTempo = SavedFixed real | SavedTapped

record SavedRegion =
  offbeatsMarked_saved :: bool
  tempo_saved :: SavedTempo
  markedBeats :: "real list"
  inferredBeats :: "real list"

type_synonym SaveObject = "SavedRegion list"

record Viewport =
  startTime_view :: real
  endTime_view :: real

text \<open>
  The closure state of \<open>Annotate\<close>. The three id generators are the counters of the last id
  issued. \<open>userBeatsById\<close> maps an id to the address of a beat; a key that is absent and a
  key set to \<open>undefined\<close> are both \<open>None\<close> (only \<open>get\<close> reads the map).
  \<open>saveCalls\<close> records the arguments of the calls of \<open>opts.save\<close>, latest last.
\<close>

record Engine =
  duration :: real
  regions :: "TempoRegion list"
  beatStore :: "nat \<Rightarrow> UserBeat"
  userBeatsById :: "nat \<Rightarrow> nat option"
  regionIdCounter :: nat
  userBeatIdCounter :: nat
  autoBeatIdCounter :: nat
  viewport :: Viewport
  selectedRegionId :: "nat option"
  saveCalls :: "SaveObject list"

text \<open>
  What a call can do instead of returning: throw (\<open>assertNotNull\<close>, a property read on
  \<open>undefined\<close>, the checks of the loader), never return (a \<open>for\<close> loop whose step does not
  advance), or leave the real numbers (a division by zero that yields an infinity, a time
  that is \<open>undefined\<close>); the model does not follow the program beyond \<open>NotAReal\<close>.
\<close>

datatype error = BeatByIdNull | TypeError | InvalidRegionTimes | BeatsNotAscending
  | Diverges | NotAReal

definition bindE :: "error + 'a \<Rightarrow> ('a \<Rightarrow> error + 'b) \<Rightarrow> error + 'b" where
  "bindE m f = (case m of Inl e \<Rightarrow> Inl e | Inr x \<Rightarrow> f x)"

text \<open>\<open>Array.prototype.findIndex\<close>; \<open>None\<close> is the result \<open>-1\<close>.\<close>

fun findIndex :: "('a \<Rightarrow> bool) \<Rightarrow> 'a list \<Rightarrow> nat option" where
  "findIndex p [] = None"
| "findIndex p (x # xs) = (if p x then Some 0 else map_option Suc (findIndex p xs))"

text \<open>\<open>isSortedAscending\<close> of util.ts, used in assertions and by the loader.\<close>

fun sortedFrom :: "real \<Rightarrow> real list \<Rightarrow> bool" where
  "sortedFrom l [] = True"
| "sortedFrom l (k # ks) = (if k < l then False else sortedFrom k ks)"

definition isSortedAscending :: "real list \<Rightarrow> bool" where
  "isSortedAscending arr = (case arr of [] \<Rightarrow> True | a # as \<Rightarrow> sortedFrom a as)"

section \<open>Rounding of doubles\<close>

text \<open>
  Round to nearest, ties to even: the rounding of every arithmetic operation on doubles.
  \<open>binary64 x\<close> is the multiple of \<open>2 ^ e\<close> nearest to \<open>x\<close>, where \<open>e\<close> is chosen so that the
  multiplier has 53 bits. The exponent is not bounded: the definition is the rounding of
  the format for results whose magnitude is at least \<open>2 ^ -1022\<close> and below \<open>2 ^ 1024\<close>
  (no subnormal numbers, no overflow to an infinity).
\<close>

definition roundHalfEven :: "real \<Rightarrow> int" where
  "roundHalfEven y =
    (let n = \<lfloor>y\<rfloor>; r = y - real_of_int n
     in if r < 1 / 2 then n else if 1 / 2 < r then n + 1 else if even n then n else n + 1)"

definition binary64 :: "real \<Rightarrow> real" where
  "binary64 x =
    (if x = 0 then 0
     else let e = \<lfloor>log 2 \<bar>x\<bar>\<rfloor> - 52
          in real_of_int (roundHalfEven (x / 2 powr real_of_int e)) * 2 powr real_of_int e)"

text \<open>No rounding: arithmetic over the reals.\<close>

definition unrounded :: "real \<Rightarrow> real" where
  "unrounded x = x"

section \<open>Numeric estimators\<close>

definition beatTimes :: "(nat \<Rightarrow> UserBeat) \<Rightarrow> TempoRegion \<Rightarrow> real list" where
  "beatTimes h r = map (\<lambda>a. time (h a)) (userBeats r)"

text \<open>The distances \<open>userBeats[i].time - userBeats[i - 1].time\<close> for \<open>i = 1 .. length - 1\<close>.\<close>

definition dists :: "(real \<Rightarrow> real) \<Rightarrow> real list \<Rightarrow> real list" where
  "dists fl ts = map (\<lambda>i. fl (ts ! i - ts ! (i - 1))) [1 ..< length ts]"

text \<open>The loop \<open>let sum = 0; for (const x of xs) sum += x\<close>.\<close>

definition sumLoop :: "(real \<Rightarrow> real) \<Rightarrow> real list \<Rightarrow> real" where
  "sumLoop fl xs = fold (\<lambda>x sum. fl (sum + x)) xs 0"

text \<open>
  \<open>recomputeTempo\<close>, the branch for two or more beats. \<open>fl\<close> rounds the result of each
  subtraction, multiplication, division, addition, square and square root; the literals
  \<open>1.2\<close> and \<open>0.2\<close> are the rounded \<open>12 / 10\<close> and \<open>2 / 10\<close>; \<open>Math.min\<close>, \<open>Math.round\<close>
  and \<open>Math.ceil\<close> are exact, and so is every count of list elements. \<open>sortJS\<close> stands for
  \<open>Array.prototype.sort\<close> called without a comparator, which orders numbers by their decimal
  strings; it is a parameter. \<open>minDist\<close> starts at \<open>+Infinity\<close> in the source, which no
  distance exceeds. With no candidate the source computes \<open>0 / 0\<close> and every later
  number is NaN.
\<close>

definition initialEstimate ::
  "(real \<Rightarrow> real) \<Rightarrow> (real list \<Rightarrow> real list) \<Rightarrow> real list \<Rightarrow> real option" where
  "initialEstimate fl sortJS ds =
    (case ds of [] \<Rightarrow> None
     | d # rest \<Rightarrow>
        let minDist = fold min rest d;
            candidates = sortJS (filter (\<lambda>d. d < fl (minDist * fl (12 / 10))) ds);
            candidates' =
              (if 5 \<le> length candidates
               then let discard = nat \<lceil>fl (real (length candidates) * fl (2 / 10))\<rceil>
                    in take (length candidates - discard - discard) (drop discard candidates)
               else candidates)
        in if length candidates' = 0 then None
           else Some (fl (sumLoop fl candidates' / real (length candidates'))))"

definition periodsOf :: "(real \<Rightarrow> real) \<Rightarrow> real \<Rightarrow> real \<Rightarrow> int" where
  "periodsOf fl est d = round (fl (d / est))"

definition estimateTempo ::
  "(real \<Rightarrow> real) \<Rightarrow> (real list \<Rightarrow> real list) \<Rightarrow> real list \<Rightarrow> TappedValue" where
  "estimateTempo fl sortJS ts =
    (let ds = dists fl ts in
     case initialEstimate fl sortJS ds of
       None \<Rightarrow> EstimateNaN
     | Some est \<Rightarrow>
        let meanPeriod =
              fl (sumLoop fl ds / sumLoop fl (map (\<lambda>d. real_of_int (periodsOf fl est d)) ds));
            meanBpm = fl (60 / meanPeriod);
            variance =
              fl (sumLoop fl
                    (map (\<lambda>d. fl ((fl (meanBpm
                        - fl (60 / fl (d / real_of_int (periodsOf fl est d)))))\<^sup>2)) ds)
                  / real (length ds))
        in Estimate meanPeriod (fl (sqrt variance)))"

definition recomputeTempo ::
  "(real \<Rightarrow> real) \<Rightarrow> (real list \<Rightarrow> real list) \<Rightarrow> (nat \<Rightarrow> UserBeat) \<Rightarrow> TempoRegion
    \<Rightarrow> TempoRegion" where
  "recomputeTempo fl sortJS h r =
    (if length (userBeats r) = 0 then r
     else if length (userBeats r) < 2 then r\<lparr>tempo := Tapped None\<rparr>
     else r\<lparr>tempo := Tapped (Some (estimateTempo fl sortJS (beatTimes h r)))\<rparr>)"

text \<open>
  \<open>setTimesBetweenBeats\<close>. The loop writes \<open>localBeatPeriod\<close> of each listed beat in order
  and reads only times, which it does not change. With a NaN period every comparison
  \<open>nPeriods > 0\<close> is false. With a period of zero the quotient is an infinity whose sign is
  that of \<open>between\<close> (NaN when \<open>between\<close> is zero), and \<open>between / Infinity\<close> is zero.
\<close>

definition localPeriod :: "TappedValue \<Rightarrow> real \<Rightarrow> real option" where
  "localPeriod v between =
    (case v of
       EstimateNaN \<Rightarrow> None
     | Estimate onePeriod sd \<Rightarrow>
        if onePeriod = 0 then (if 0 < between then Some 0 else None)
        else let nPeriods = round (between / onePeriod)
             in if 0 < nPeriods then Some (between / real_of_int nPeriods) else None)"

definition setTimesBetweenBeats ::
  "TappedValue option \<Rightarrow> nat list \<Rightarrow> (nat \<Rightarrow> UserBeat) \<Rightarrow> (nat \<Rightarrow> UserBeat)" where
  "setTimesBetweenBeats v ubs h =
    (case v of
       None \<Rightarrow> fold (\<lambda>a h'. h'(a := (h' a)\<lparr>localBeatPeriod := None\<rparr>)) ubs h
     | Some val \<Rightarrow>
        fold (\<lambda>i h'. h'(ubs ! i := (h' (ubs ! i))\<lparr>localBeatPeriod :=
                (if i = 0 then None
                 else localPeriod val (time (h' (ubs ! i)) - time (h' (ubs ! (i - 1)))))\<rparr>))
             [0 ..< length ubs] h)"

text \<open>
  \<open>recomputePhaseOffset\<close> for a fixed region. With \<open>bpm = 0\<close> the period is an infinity
  and the mean error is NaN: the model stops there with \<open>NotAReal\<close>.
\<close>

definition phaseError :: "real \<Rightarrow> real \<Rightarrow> real" where
  "phaseError period t = real_of_int (round (t / period)) * period - t"

definition recomputePhaseOffset :: "(nat \<Rightarrow> UserBeat) \<Rightarrow> TempoRegion \<Rightarrow> error + TempoRegion" where
  "recomputePhaseOffset h r =
    (case tempo r of
       Tapped v \<Rightarrow> Inr r
     | Fixed b ph \<Rightarrow>
        if length (userBeats r) = 0 then Inr r
        else if length (userBeats r) < 2 then Inr (r\<lparr>tempo := Fixed b 0\<rparr>)
        else if b = 0 then Inl NotAReal
        else let period = 60 / b;
                 meanError =
                   sum_list (map (\<lambda>t. phaseError period (t - startTime r)) (tl (beatTimes h r)))
                     / real (length (userBeats r) - 1)
             in Inr (r\<lparr>tempo := Fixed b (- meanError)\<rparr>))"

section \<open>Auto-beat projector\<close>

text \<open>
  The loop \<open>for (let t = t0; t < upTo; t += period) beats.push(t)\<close>. Over the reals it ends
  exactly when it is not entered or the period is positive; otherwise it never returns.
\<close>

function stepsFrom :: "real \<Rightarrow> real \<Rightarrow> real \<Rightarrow> real list" where
  "stepsFrom t upTo period =
    (if t < upTo \<and> 0 < period then t # stepsFrom (t + period) upTo period else [])"
  by pat_completeness auto
termination
proof (relation "measure (\<lambda>(t, upTo, period). nat \<lceil>(upTo - t) / period\<rceil>)")
  show "wf (measure (\<lambda>(t, upTo, period). nat \<lceil>(upTo - t) / period\<rceil>))"
    by simp
next
  fix t upTo period :: real
  assume a: "t < upTo \<and> 0 < period"
  then have e: "(upTo - (t + period)) / period = (upTo - t) / period - 1"
    by (simp add: field_simps)
  from a have "0 < (upTo - t) / period"
    by simp
  then have "0 < \<lceil>(upTo - t) / period\<rceil>"
    by linarith
  then have "nat \<lceil>(upTo - t) / period - 1\<rceil> < nat \<lceil>(upTo - t) / period\<rceil>"
    by simp
  with e show "((t + period, upTo, period), (t, upTo, period))
      \<in> measure (\<lambda>(t, upTo, period). nat \<lceil>(upTo - t) / period\<rceil>)"
    by simp
qed

declare stepsFrom.simps [simp del]

definition forLoop :: "real \<Rightarrow> real \<Rightarrow> real \<Rightarrow> error + real list" where
  "forLoop t0 upTo period =
    (if t0 < upTo \<and> period \<le> 0 then Inl Diverges else Inr (stepsFrom t0 upTo period))"

text \<open>Runs the inner loop for each user beat in turn and appends what it pushes.\<close>

fun tappedLoops :: "real \<Rightarrow> real \<Rightarrow> real list \<Rightarrow> error + real list" where
  "tappedLoops period regionEnd [] = Inr []"
| "tappedLoops period regionEnd [t] = forLoop (t + period) regionEnd period"
| "tappedLoops period regionEnd (t # t' # ts) =
    bindE (forLoop (t + period) t' period) (\<lambda>bs.
    bindE (tappedLoops period regionEnd (t' # ts)) (\<lambda>rest. Inr (bs @ rest)))"

definition computeAutoBeats :: "(nat \<Rightarrow> UserBeat) \<Rightarrow> TempoRegion \<Rightarrow> error + real list" where
  "computeAutoBeats h r =
    (case tempo r of
       Tapped None \<Rightarrow> Inr []
     | Tapped (Some EstimateNaN) \<Rightarrow> Inr []
     | Tapped (Some (Estimate period sd)) \<Rightarrow> tappedLoops period (endTime r) (beatTimes h r)
     | Fixed b ph \<Rightarrow>
        if b = 0 then Inl NotAReal
        else forLoop (startTime r + ph) (endTime r) (60 / b))"

text \<open>
  \<open>drawAutopoints\<close>: the body of the loop over the times of one region in view. The state
  of the loop is the region's \<open>autoBeats\<close>, \<open>pointsRecycled\<close>, \<open>pointsPlaced\<close> and the
  counter behind \<open>nextAutoBeatId\<close>.
\<close>

definition placeStep ::
  "real \<Rightarrow> real \<Rightarrow> nat \<Rightarrow> nat \<Rightarrow> real \<Rightarrow> AutoBeat list \<times> nat \<times> nat \<times> nat
    \<Rightarrow> AutoBeat list \<times> nat \<times> nat \<times> nat" where
  "placeStep drawStart drawEnd recyclePoints ridx t st =
    (case st of (pts, pointsRecycled, pointsPlaced, nid) \<Rightarrow>
      if t < drawStart \<or> drawEnd \<le> t then st
      else if pointsPlaced < recyclePoints
        then (pts[pointsPlaced := (pts ! pointsPlaced)\<lparr>time_auto := t\<rparr>],
              pointsRecycled + 1, pointsPlaced + 1, nid)
        else (pts @ [\<lparr>id_auto = nid + 1, regionIndex_auto = ridx, time_auto = t\<rparr>],
              pointsRecycled, pointsPlaced + 1, nid + 1))"

definition projectRegion ::
  "real \<Rightarrow> real \<Rightarrow> TempoRegion \<Rightarrow> real list \<Rightarrow> nat \<Rightarrow> TempoRegion \<times> nat" where
  "projectRegion drawStart drawEnd r ts nid =
    (let recyclePoints = length (autoBeats r) in
     case fold (placeStep drawStart drawEnd recyclePoints (index r)) ts (autoBeats r, 0, 0, nid) of
       (pts, pointsRecycled, pointsPlaced, nid') \<Rightarrow>
         (r\<lparr>autoBeats := (if pointsRecycled < recyclePoints then take pointsRecycled pts else pts)\<rparr>,
          nid'))"

fun drawRegions ::
  "(nat \<Rightarrow> UserBeat) \<Rightarrow> real \<Rightarrow> real \<Rightarrow> TempoRegion list \<Rightarrow> nat
    \<Rightarrow> error + (TempoRegion list \<times> nat)" where
  "drawRegions h drawStart drawEnd [] nid = Inr ([], nid)"
| "drawRegions h drawStart drawEnd (r # rs) nid =
    (if drawStart \<le> endTime r \<and> startTime r < drawEnd
     then bindE (computeAutoBeats h r) (\<lambda>ts.
          case projectRegion drawStart drawEnd r ts nid of (r', nid') \<Rightarrow>
          bindE (drawRegions h drawStart drawEnd rs nid') (\<lambda>(rs', n). Inr (r' # rs', n)))
     else bindE (drawRegions h drawStart drawEnd rs nid)
            (\<lambda>(rs', n). Inr (r\<lparr>autoBeats := []\<rparr> # rs', n)))"

definition drawBuffer :: real where
  "drawBuffer = 30"

definition drawStartOf :: "Engine \<Rightarrow> real" where
  "drawStartOf s = max (startTime_view (viewport s) - drawBuffer) 0"

definition drawEndOf :: "Engine \<Rightarrow> real" where
  "drawEndOf s = min (endTime_view (viewport s) + drawBuffer) (duration s)"

definition drawAutopoints :: "Engine \<Rightarrow> error + Engine" where
  "drawAutopoints s =
    bindE (drawRegions (beatStore s) (drawStartOf s) (drawEndOf s) (regions s) (autoBeatIdCounter s))
      (\<lambda>(rs, n). Inr (s\<lparr>regions := rs, autoBeatIdCounter := n\<rparr>))"

section \<open>Saving\<close>

definition roundTime :: "real \<Rightarrow> real" where
  "roundTime t = real_of_int (round (t * 10 ^ 6)) / 10 ^ 6"

definition savedTempo :: "Tempo \<Rightarrow> SavedTempo" where
  "savedTempo tp = (case tp of Fixed b ph \<Rightarrow> SavedFixed b | Tapped v \<Rightarrow> SavedTapped)"

definition savedRegion :: "(nat \<Rightarrow> UserBeat) \<Rightarrow> TempoRegion \<Rightarrow> error + SavedRegion" where
  "savedRegion h r =
    bindE (computeAutoBeats h r) (\<lambda>inferred.
      Inr \<lparr>offbeatsMarked_saved = offbeatsMarked r,
           tempo_saved = savedTempo (tempo r),
           markedBeats = map roundTime (beatTimes h r),
           inferredBeats = inferred\<rparr>)"

fun mapE :: "('a \<Rightarrow> error + 'b) \<Rightarrow> 'a list \<Rightarrow> error + 'b list" where
  "mapE f [] = Inr []"
| "mapE f (x # xs) = bindE (f x) (\<lambda>y. bindE (mapE f xs) (\<lambda>ys. Inr (y # ys)))"

definition saveState :: "Engine \<Rightarrow> error + (SaveObject \<times> Engine)" where
  "saveState s =
    bindE (mapE (savedRegion (beatStore s)) (regions s))
      (\<lambda>j. Inr (j, s\<lparr>saveCalls := saveCalls s @ [j]\<rparr>))"

section \<open>Region mutation engine\<close>

text \<open>\<open>reassignRegionIndices\<close>: one pass over the regions and the beats each one lists.\<close>

definition reassignRegionIndices :: "Engine \<Rightarrow> Engine" where
  "reassignRegionIndices s =
    s\<lparr>regions := map (\<lambda>i. (regions s ! i)\<lparr>index := i\<rparr>) [0 ..< length (regions s)],
      beatStore :=
        fold (\<lambda>i h. fold (\<lambda>a h'. h'(a := (h' a)\<lparr>regionIndex := i\<rparr>)) (userBeats (regions s ! i)) h)
          [0 ..< length (regions s)] (beatStore s)\<rparr>"

text \<open>
  \<open>onRegionsChanged\<close>. The changed regions are given by their positions in the region list
  at the time of the call (every caller passes regions that are in the list). The engine
  runs the estimator over the reals.
\<close>

definition recomputeAt :: "(real list \<Rightarrow> real list) \<Rightarrow> nat \<Rightarrow> Engine \<Rightarrow> error + Engine" where
  "recomputeAt sortJS i s =
    (if length (regions s) \<le> i then Inr s
     else let r = regions s ! i in
       case tempo r of
         Tapped v \<Rightarrow>
           (let r' = recomputeTempo unrounded sortJS (beatStore s) r in
            Inr (s\<lparr>regions := (regions s)[i := r'],
                   beatStore :=
                     setTimesBetweenBeats (case tempo r' of Tapped v' \<Rightarrow> v' | Fixed b ph \<Rightarrow> None)
                       (userBeats r') (beatStore s)\<rparr>))
       | Fixed b ph \<Rightarrow>
           bindE (recomputePhaseOffset (beatStore s) r) (\<lambda>r'.
             Inr (s\<lparr>regions := (regions s)[i := r']\<rparr>)))"

fun foldE :: "('a \<Rightarrow> 's \<Rightarrow> error + 's) \<Rightarrow> 'a list \<Rightarrow> 's \<Rightarrow> error + 's" where
  "foldE f [] s = Inr s"
| "foldE f (x # xs) s = bindE (f x s) (foldE f xs)"

definition onRegionsChanged ::
  "(real list \<Rightarrow> real list) \<Rightarrow> nat list \<Rightarrow> bool \<Rightarrow> Engine \<Rightarrow> error + Engine" where
  "onRegionsChanged sortJS changedRegions doSave s =
    bindE (foldE (recomputeAt sortJS) changedRegions s) (\<lambda>s1.
    bindE (drawAutopoints s1) (\<lambda>s2.
      if doSave then bindE (saveState s2) (\<lambda>(j, s3). Inr s3) else Inr s2))"

text \<open>A value that is \<open>null\<close>, \<open>undefined\<close> (an array read out of range) or an object.\<close>

datatype 'a jsref = Null | Undefined | Ref 'a

definition firstBeat :: "TempoRegion \<Rightarrow> nat jsref" where
  "firstBeat r = (case userBeats r of [] \<Rightarrow> Undefined | a # as \<Rightarrow> Ref a)"

text \<open>\<open>addPoint\<close> returns \<open>null\<close> when it rejects the point and nothing otherwise.\<close>

datatype AddResult = Rejected | Added

definition ensureRegion :: "real \<Rightarrow> Engine \<Rightarrow> Engine" where
  "ensureRegion t s =
    (if length (regions s) = 0
     then let rid = regionIdCounter s + 1 in
       s\<lparr>regionIdCounter := rid,
         regions := [\<lparr>id_region = rid, index = 0, userBeats = [], autoBeats = [],
                      startTime = t, endTime = duration s, offbeatsMarked = False,
                      tempo = Tapped None\<rparr>],
         selectedRegionId := Some rid\<rparr>
     else s)"

definition findContainingRegion :: "real \<Rightarrow> TempoRegion list \<Rightarrow> nat option" where
  "findContainingRegion t rs =
    (case rs of
       [] \<Rightarrow> None
     | r0 # rest \<Rightarrow>
        if t < startTime r0 then Some 0
        else findIndex (\<lambda>r. startTime r \<le> t \<and> t < endTime r) rs)"

definition insertAtOf :: "(nat \<Rightarrow> UserBeat) \<Rightarrow> real \<Rightarrow> TempoRegion \<Rightarrow> nat" where
  "insertAtOf h t r =
    (case findIndex (\<lambda>p. t < time (h p)) (userBeats r) of
       Some firstIdxAfter \<Rightarrow> firstIdxAfter
     | None \<Rightarrow> length (userBeats r))"

definition pointAfterOf :: "TempoRegion list \<Rightarrow> TempoRegion \<Rightarrow> nat \<Rightarrow> nat jsref" where
  "pointAfterOf rs containingRegion insertAt =
    (if insertAt < length (userBeats containingRegion)
       then Ref (userBeats containingRegion ! insertAt)
     else if index containingRegion + 1 < length rs
       then firstBeat (rs ! (index containingRegion + 1))
     else Null)"

text \<open>
  \<open>pointBefore\<close> reads \<open>regions[containingRegion.index - 1].userBeats\<close>, which throws when
  that region is \<open>undefined\<close>.
\<close>

definition pointBeforeOf :: "TempoRegion list \<Rightarrow> TempoRegion \<Rightarrow> nat \<Rightarrow> error + nat jsref" where
  "pointBeforeOf rs containingRegion insertAt =
    (if 0 < insertAt then Inr (Ref (userBeats containingRegion ! (insertAt - 1)))
     else if 0 < index containingRegion
       then (if index containingRegion - 1 < length rs
             then Inr (firstBeat (rs ! (index containingRegion - 1)))
             else Inl TypeError)
     else Inr Null)"

text \<open>
  The branch \<open>createNewRegion\<close>: the beats from \<open>insertAt\<close> on move to a new region that is
  spliced in at \<open>containingRegion.index + 1\<close>. The result is the new state, the positions
  of \<open>changedRegions\<close> and the new selection is set.
\<close>

definition splitRegion :: "real \<Rightarrow> nat \<Rightarrow> nat \<Rightarrow> Engine \<Rightarrow> error + (Engine \<times> nat list)" where
  "splitRegion t containingRegionIndex insertAt s =
    (let containingRegion = regions s ! containingRegionIndex;
         newRegionIndex = index containingRegion + 1;
         newBeatId = userBeatIdCounter s + 1;
         newBeat = \<lparr>regionIndex = newRegionIndex, isTempoChange = True, time = t,
                    localBeatPeriod = None\<rparr>;
         removedFromContaining = drop insertAt (userBeats containingRegion);
         newRegionId = regionIdCounter s + 1;
         newRegion = \<lparr>id_region = newRegionId, index = newRegionIndex,
                      userBeats = newBeatId # removedFromContaining, autoBeats = [],
                      startTime = t, endTime = endTime containingRegion,
                      offbeatsMarked = offbeatsMarked containingRegion,
                      tempo = (case tempo containingRegion of
                                 Fixed b ph \<Rightarrow> Fixed b 0
                               | Tapped v \<Rightarrow> Tapped None)\<rparr>;
         rs1 = (regions s)[containingRegionIndex :=
                 containingRegion\<lparr>userBeats := take insertAt (userBeats containingRegion),
                                   endTime := t\<rparr>];
         rs2 = take newRegionIndex rs1 @ [newRegion] @ drop newRegionIndex rs1
     in if length rs1 < newRegionIndex then Inl TypeError
        else Inr (reassignRegionIndices
                    (s\<lparr>userBeatIdCounter := newBeatId,
                       regionIdCounter := newRegionId,
                       beatStore := (beatStore s)(newBeatId := newBeat),
                       regions := rs2,
                       userBeatsById := (userBeatsById s)(newBeatId \<mapsto> newBeatId)\<rparr>)
                    \<lparr>selectedRegionId := Some newRegionId\<rparr>,
                  [newRegionIndex,
                   if containingRegionIndex < newRegionIndex then containingRegionIndex
                   else containingRegionIndex + 1]))"

text \<open>
  The other tempo-change branch (first beat of the first region): \<open>splice(insertAt, 0)\<close>
  is called without an item, and the id of the new beat is mapped to whatever is at
  \<open>userBeats[insertAt]\<close>.
\<close>

definition tempoChangeAtStart :: "real \<Rightarrow> nat \<Rightarrow> nat \<Rightarrow> Engine \<Rightarrow> Engine \<times> nat list" where
  "tempoChangeAtStart t containingRegionIndex insertAt s =
    (let containingRegion = regions s ! containingRegionIndex;
         newBeatId = userBeatIdCounter s + 1
     in (s\<lparr>regions := (regions s)[containingRegionIndex := containingRegion\<lparr>startTime := t\<rparr>],
           userBeatIdCounter := newBeatId,
           userBeatsById := (userBeatsById s)(newBeatId :=
             (if insertAt < length (userBeats containingRegion)
              then Some (userBeats containingRegion ! insertAt) else None)),
           selectedRegionId := Some (id_region containingRegion)\<rparr>,
         [containingRegionIndex]))"

definition insertBeat :: "real \<Rightarrow> nat \<Rightarrow> nat \<Rightarrow> Engine \<Rightarrow> Engine \<times> nat list" where
  "insertBeat t containingRegionIndex insertAt s =
    (let containingRegion = regions s ! containingRegionIndex;
         newBeatId = userBeatIdCounter s + 1;
         newBeat = \<lparr>regionIndex = containingRegionIndex, isTempoChange = False, time = t,
                    localBeatPeriod = Some 0\<rparr>
     in (s\<lparr>regions := (regions s)[containingRegionIndex :=
             containingRegion\<lparr>userBeats := take insertAt (userBeats containingRegion) @ [newBeatId]
                                   @ drop insertAt (userBeats containingRegion),
                               startTime := min t (startTime containingRegion)\<rparr>],
           userBeatIdCounter := newBeatId,
           beatStore := (beatStore s)(newBeatId := newBeat),
           userBeatsById := (userBeatsById s)(newBeatId \<mapsto> newBeatId),
           selectedRegionId := Some (id_region containingRegion)\<rparr>,
         [containingRegionIndex]))"

definition tooClose :: "(nat \<Rightarrow> UserBeat) \<Rightarrow> real \<Rightarrow> nat \<Rightarrow> bool" where
  "tooClose h t pointAfter = (time (h pointAfter) - t < MIN_BEAT_SPACING)"

definition tooCloseBefore :: "(nat \<Rightarrow> UserBeat) \<Rightarrow> real \<Rightarrow> nat \<Rightarrow> bool" where
  "tooCloseBefore h t pointBefore = (t - time (h pointBefore) < MIN_BEAT_SPACING)"

definition finishAdd ::
  "(real list \<Rightarrow> real list) \<Rightarrow> Engine \<times> nat list \<Rightarrow> error + (AddResult \<times> Engine)" where
  "finishAdd sortJS sc =
    bindE (onRegionsChanged sortJS (snd sc) True (fst sc)) (\<lambda>s'. Inr (Added, s'))"

definition addPoint ::
  "(real list \<Rightarrow> real list) \<Rightarrow> real \<Rightarrow> bool \<Rightarrow> Engine \<Rightarrow> error + (AddResult \<times> Engine)" where
  "addPoint sortJS t isTempoChange' s0 =
    (let s = ensureRegion t s0 in
     case findContainingRegion t (regions s) of
       None \<Rightarrow> Inr (Rejected, s)
     | Some ci \<Rightarrow>
        let containingRegion = regions s ! ci;
            insertAt = insertAtOf (beatStore s) t containingRegion;
            pointAfter = pointAfterOf (regions s) containingRegion insertAt
        in bindE (pointBeforeOf (regions s) containingRegion insertAt) (\<lambda>pointBefore.
           case pointAfter of
             Undefined \<Rightarrow> Inl TypeError
           | _ \<Rightarrow>
             if (case pointAfter of Ref a \<Rightarrow> tooClose (beatStore s) t a | _ \<Rightarrow> False)
               then Inr (Rejected, s)
             else if isTempoChange' then
               (if \<not> (ci = 0 \<and> insertAt = 0)
                then bindE (splitRegion t ci insertAt s) (finishAdd sortJS)
                else finishAdd sortJS (tempoChangeAtStart t ci insertAt s))
             else
               (case pointBefore of
                  Undefined \<Rightarrow> Inl TypeError
                | _ \<Rightarrow>
                  if (case pointBefore of Ref b \<Rightarrow> tooCloseBefore (beatStore s) t b | _ \<Rightarrow> False)
                    then Inr (Rejected, s)
                  else finishAdd sortJS (insertBeat t ci insertAt s))))"

text \<open>
  \<open>deletePoint\<close>, the branch of a tempo-change beat in a region whose \<open>index\<close> is positive.
  \<open>pos\<close> is the position of \<open>containingRegion\<close> (it was read as
  \<open>regions[beat.regionIndex]\<close>); \<open>previousRegion\<close> is read at \<open>containingRegion.index - 1\<close>.
\<close>

definition mergeIntoPrevious :: "nat \<Rightarrow> Engine \<Rightarrow> error + (Engine \<times> nat list)" where
  "mergeIntoPrevious pos s =
    (let containingRegion = regions s ! pos;
         ppos = index containingRegion - 1
     in if length (regions s) \<le> ppos then Inl TypeError
        else
          let previousRegion = regions s ! ppos;
              moved = drop (max 1 (length (userBeats containingRegion) - 1))
                        (userBeats containingRegion);
              rs1 = (regions s)[ppos :=
                      previousRegion\<lparr>userBeats := userBeats previousRegion @ moved\<rparr>];
              rs2 = rs1[ppos := (rs1 ! ppos)\<lparr>endTime := endTime (rs1 ! pos)\<rparr>];
              rs3 = take (index containingRegion) rs2 @ drop (Suc (index containingRegion)) rs2
          in Inr (reassignRegionIndices (s\<lparr>regions := rs3\<rparr>)
                    \<lparr>selectedRegionId :=
                       (if selectedRegionId s = Some (id_region containingRegion)
                        then Some (id_region previousRegion) else selectedRegionId s)\<rparr>,
                  [ppos]))"

text \<open>
  The branch of a plain beat. \<open>splice(idxInRegion, 1)\<close> with \<open>idxInRegion = -1\<close> removes the
  last element.
\<close>

definition removeBeat :: "nat \<Rightarrow> nat \<Rightarrow> Engine \<Rightarrow> Engine \<times> nat list" where
  "removeBeat ident pos s =
    (let containingRegion = regions s ! pos;
         ubs = userBeats containingRegion;
         ubs' = (case findIndex (\<lambda>b. b = ident) ubs of
                   Some idxInRegion \<Rightarrow> take idxInRegion ubs @ drop (Suc idxInRegion) ubs
                 | None \<Rightarrow> butlast ubs)
     in case ubs' of
          a # rest \<Rightarrow>
            (s\<lparr>regions := (regions s)[pos :=
                  containingRegion\<lparr>userBeats := ubs', startTime := time (beatStore s a)\<rparr>]\<rparr>,
             [pos])
        | [] \<Rightarrow>
            (let rs1 = (regions s)[pos := containingRegion\<lparr>userBeats := []\<rparr>];
                 rs2 = take (index containingRegion) rs1 @ drop (Suc (index containingRegion)) rs1
             in (reassignRegionIndices
                   (s\<lparr>regions := rs2,
                      selectedRegionId :=
                        (if selectedRegionId s = Some (id_region containingRegion)
                         then None else selectedRegionId s)\<rparr>),
                 [])))"

definition finishDelete ::
  "(real list \<Rightarrow> real list) \<Rightarrow> Engine \<times> nat list \<Rightarrow> error + Engine" where
  "finishDelete sortJS sc = onRegionsChanged sortJS (snd sc) True (fst sc)"

definition deletePoint :: "(real list \<Rightarrow> real list) \<Rightarrow> nat \<Rightarrow> Engine \<Rightarrow> error + Engine" where
  "deletePoint sortJS ident s =
    (case userBeatsById s ident of
       None \<Rightarrow> Inl BeatByIdNull
     | Some a \<Rightarrow>
        let beat = beatStore s a; pos = regionIndex beat in
        if length (regions s) \<le> pos then Inl TypeError
        else
          let containingRegion = regions s ! pos in
          if isTempoChange beat then
            (if length (userBeats containingRegion) = 0 then Inl TypeError
             else if 0 < index containingRegion
               then bindE (mergeIntoPrevious pos s) (finishDelete sortJS)
             else finishDelete sortJS (s, []))
          else finishDelete sortJS (removeBeat ident pos s))"

text \<open>
  \<open>tryMovePoint\<close>. \<open>beatIdx\<close> is \<open>None\<close> for \<open>-1\<close>, so \<open>beatIdx + 1\<close> is \<open>nextIdx\<close>. \<open>fl\<close>
  rounds the quotient \<open>60 / MAX_TEMPO\<close> of the constant \<open>MIN_BEAT_SPACING\<close> and each sum and
  difference of the clamps; \<open>Math.max\<close> and \<open>Math.min\<close> are exact. The recompute pass of the
  phase \<open>end\<close> is that of the engine.
\<close>

datatype MovePhase = Start | Move | End

definition clampBefore ::
  "(real \<Rightarrow> real) \<Rightarrow> (nat \<Rightarrow> UserBeat) \<Rightarrow> TempoRegion list \<Rightarrow> nat \<Rightarrow> nat option \<Rightarrow> real
    \<Rightarrow> real" where
  "clampBefore fl h rs pos beatIdx toTime =
    (let ubs = userBeats (rs ! pos) in
     case beatIdx of
       Some (Suc k) \<Rightarrow> max toTime (fl (time (h (ubs ! k)) + fl MIN_BEAT_SPACING))
     | _ \<Rightarrow>
        if 0 < pos
        then (let prevBeats = userBeats (rs ! (pos - 1)) in
              if 0 < length prevBeats
              then max toTime
                     (fl (time (h (prevBeats ! (length prevBeats - 1))) + fl MIN_BEAT_SPACING))
              else toTime)
        else toTime)"

definition clampAfter ::
  "(real \<Rightarrow> real) \<Rightarrow> (nat \<Rightarrow> UserBeat) \<Rightarrow> TempoRegion list \<Rightarrow> nat \<Rightarrow> nat \<Rightarrow> real
    \<Rightarrow> error + real" where
  "clampAfter fl h rs pos nextIdx clamped =
    (let containingRegion = rs ! pos in
     if nextIdx < length (userBeats containingRegion)
       then Inr (min clamped
                  (fl (time (h (userBeats containingRegion ! nextIdx)) - fl MIN_BEAT_SPACING)))
     else if index containingRegion + 1 < length rs
       then (case firstBeat (rs ! (index containingRegion + 1)) of
               Ref a \<Rightarrow> Inr (min clamped (fl (time (h a) - fl MIN_BEAT_SPACING)))
             | _ \<Rightarrow> Inl TypeError)
     else Inr clamped)"

definition clampDuration :: "real \<Rightarrow> TempoRegion list \<Rightarrow> nat \<Rightarrow> nat \<Rightarrow> real \<Rightarrow> real" where
  "clampDuration d rs pos nextIdx clamped =
    (if index (rs ! pos) + 1 = length rs \<and> nextIdx = length (userBeats (rs ! pos))
     then min clamped d else clamped)"

definition moveBeat :: "nat \<Rightarrow> nat \<Rightarrow> nat option \<Rightarrow> real \<Rightarrow> Engine \<Rightarrow> Engine" where
  "moveBeat a pos beatIdx clamped s =
    (let s1 = s\<lparr>beatStore := (beatStore s)(a := (beatStore s a)\<lparr>time := clamped\<rparr>)\<rparr> in
     if beatIdx = Some 0
     then (let rs1 = (regions s1)[pos := (regions s1 ! pos)\<lparr>startTime := clamped\<rparr>] in
           s1\<lparr>regions :=
                (if 0 < pos then rs1[pos - 1 := (rs1 ! (pos - 1))\<lparr>endTime := clamped\<rparr>]
                 else rs1)\<rparr>)
     else s1)"

definition tryMovePoint ::
  "(real \<Rightarrow> real) \<Rightarrow> (real list \<Rightarrow> real list) \<Rightarrow> nat \<Rightarrow> real \<Rightarrow> MovePhase \<Rightarrow> Engine
    \<Rightarrow> error + (real \<times> Engine)" where
  "tryMovePoint fl sortJS ident toTime what s =
    (case userBeatsById s ident of
       None \<Rightarrow> Inl BeatByIdNull
     | Some a \<Rightarrow>
        let pos = regionIndex (beatStore s a) in
        if length (regions s) \<le> pos then Inl TypeError
        else
          let beatIdx = findIndex (\<lambda>b. b = a) (userBeats (regions s ! pos));
              nextIdx = (case beatIdx of None \<Rightarrow> 0 | Some k \<Rightarrow> k + 1)
          in bindE (clampAfter fl (beatStore s) (regions s) pos nextIdx
                      (clampBefore fl (beatStore s) (regions s) pos beatIdx toTime)) (\<lambda>c.
             let clamped = clampDuration (duration s) (regions s) pos nextIdx c;
                 s1 = moveBeat a pos beatIdx clamped s
             in if what = End
                then bindE (onRegionsChanged sortJS [pos] True s1) (\<lambda>s2. Inr (clamped, s2))
                else Inr (clamped, s1)))"

definition setViewport :: "Viewport \<Rightarrow> Engine \<Rightarrow> error + Engine" where
  "setViewport v s =
    (if startTime_view v = startTime_view (viewport s) \<and> endTime_view v = endTime_view (viewport s)
     then Inr s
     else drawAutopoints (s\<lparr>viewport := v\<rparr>))"

section \<open>Construction and loading\<close>

definition initialEngine :: "real \<Rightarrow> Engine" where
  "initialEngine d =
    \<lparr>duration = d, regions = [], beatStore = (\<lambda>a. \<lparr>regionIndex = 0, isTempoChange = False,
        time = 0, localBeatPeriod = None\<rparr>),
      userBeatsById = Map.empty, regionIdCounter = 0, userBeatIdCounter = 0,
      autoBeatIdCounter = 0, viewport = \<lparr>startTime_view = 0, endTime_view = 0\<rparr>,
      selectedRegionId = None, saveCalls = []\<rparr>"

text \<open>
  The loop over \<open>saved.tempoRegions\<close>. The source collects the regions in \<open>loadedRegions\<close>
  and registers them and their beats after the loop; a throw inside the loop leaves no
  engine at all, so the model registers each region as it is built. A region without
  marked beats has \<open>undefined\<close> as its start time and as the end time of the region before
  it, which is not a real number.
\<close>

definition loadedBeats :: "nat \<Rightarrow> nat \<Rightarrow> real list \<Rightarrow> (nat \<Rightarrow> UserBeat) \<Rightarrow> (nat \<Rightarrow> UserBeat)" where
  "loadedBeats base regionIdx marked h =
    fold (\<lambda>beatIdx h'. h'(base + 1 + beatIdx :=
            \<lparr>regionIndex = regionIdx, isTempoChange = (beatIdx = 0), time = marked ! beatIdx,
             localBeatPeriod = None\<rparr>))
      [0 ..< length marked] h"

text \<open>\<open>saved.tempoRegions[regionIdx + 1].markedBeats[0]\<close>, or the duration after the last region.\<close>

definition regionEndTime :: "real \<Rightarrow> SavedRegion list \<Rightarrow> real option" where
  "regionEndTime d rest =
    (case rest of
       [] \<Rightarrow> Some d
     | nextRegion # rest' \<Rightarrow> (case markedBeats nextRegion of [] \<Rightarrow> None | e # es \<Rightarrow> Some e))"

definition loadRegion :: "nat \<Rightarrow> SavedRegion \<Rightarrow> real \<Rightarrow> real \<Rightarrow> Engine \<Rightarrow> Engine" where
  "loadRegion regionIdx savedR startTime' endTime' s =
    (let base = userBeatIdCounter s;
         ids = map (\<lambda>beatIdx. base + 1 + beatIdx) [0 ..< length (markedBeats savedR)];
         region = \<lparr>id_region = regionIdCounter s + 1, index = regionIdx,
                   userBeats = ids, autoBeats = [],
                   startTime = startTime', endTime = endTime',
                   offbeatsMarked = offbeatsMarked_saved savedR,
                   tempo = (case tempo_saved savedR of
                              SavedFixed b \<Rightarrow> Fixed b 0
                            | SavedTapped \<Rightarrow> Tapped None)\<rparr>
     in s\<lparr>regions := regions s @ [region],
          beatStore := loadedBeats base regionIdx (markedBeats savedR) (beatStore s),
          userBeatsById := fold (\<lambda>a m. m(a \<mapsto> a)) ids (userBeatsById s),
          userBeatIdCounter := base + length (markedBeats savedR),
          regionIdCounter := regionIdCounter s + 1\<rparr>)"

fun loadRegions :: "real \<Rightarrow> nat \<Rightarrow> SavedRegion list \<Rightarrow> Engine \<Rightarrow> error + Engine" where
  "loadRegions d regionIdx [] s = Inr s"
| "loadRegions d regionIdx (savedR # rest) s =
    (case markedBeats savedR of
       [] \<Rightarrow> Inl NotAReal
     | startTime' # others \<Rightarrow>
        (case regionEndTime d rest of
           None \<Rightarrow> Inl NotAReal
         | Some endTime' \<Rightarrow>
            if endTime' \<le> startTime' then Inl InvalidRegionTimes
            else if \<not> isSortedAscending (markedBeats savedR) then Inl BeatsNotAscending
            else loadRegions d (regionIdx + 1) rest
                   (loadRegion regionIdx savedR startTime' endTime' s)))"

definition Annotate ::
  "(real list \<Rightarrow> real list) \<Rightarrow> real \<Rightarrow> SaveObject option \<Rightarrow> error + Engine" where
  "Annotate sortJS d loadSaved =
    (case loadSaved of
       None \<Rightarrow> Inr (initialEngine d)
     | Some saved \<Rightarrow>
        bindE (loadRegions d 0 saved (initialEngine d)) (\<lambda>s.
          onRegionsChanged sortJS [0 ..< length (regions s)] False (reassignRegionIndices s)))"

text \<open>The method \<open>save\<close> of the returned object.\<close>

definition save :: "Engine \<Rightarrow> error + (SaveObject \<times> Engine)" where
  "save s = saveState s"

section \<open>Sequences of calls\<close>

datatype Call = AddPoint real bool | DeletePoint nat | TryMovePoint nat real MovePhase
  | SetViewport Viewport

fun call :: "(real list \<Rightarrow> real list) \<Rightarrow> Call \<Rightarrow> Engine \<Rightarrow> error + Engine" where
  "call sortJS (AddPoint t tc) s = bindE (addPoint sortJS t tc s) (\<lambda>(res, s'). Inr s')"
| "call sortJS (DeletePoint ident) s = deletePoint sortJS ident s"
| "call sortJS (TryMovePoint ident toTime what) s =
    bindE (tryMovePoint unrounded sortJS ident toTime what s) (\<lambda>(clamped, s'). Inr s')"
| "call sortJS (SetViewport v) s = setViewport v s"

definition calls :: "(real list \<Rightarrow> real list) \<Rightarrow> Call list \<Rightarrow> Engine \<Rightarrow> error + Engine" where
  "calls sortJS cs s = foldE (call sortJS) cs s"

section \<open>Notions used in the properties\<close>

text \<open>
  A region whose auto-beat loops end: the period that \<open>computeAutoBeats\<close> steps by is
  positive (or there is no loop at all).
\<close>

definition positiveTempo :: "TempoRegion \<Rightarrow> bool" where
  "positiveTempo r =
    (case tempo r of
       Tapped None \<Rightarrow> True
     | Tapped (Some EstimateNaN) \<Rightarrow> True
     | Tapped (Some (Estimate period sd)) \<Rightarrow> 0 < period
     | Fixed b ph \<Rightarrow> 0 < b)"

text \<open>What the projector and the recompute pass leave alone, in a region and in a beat.\<close>

definition withoutAutoBeats :: "TempoRegion \<Rightarrow> TempoRegion" where
  "withoutAutoBeats r = r\<lparr>autoBeats := []\<rparr>"

definition structureOf ::
  "TempoRegion \<Rightarrow> nat \<times> nat \<times> nat list \<times> real \<times> real \<times> bool \<times> SavedTempo" where
  "structureOf r =
    (id_region r, index r, userBeats r, startTime r, endTime r, offbeatsMarked r,
     savedTempo (tempo r))"

definition beatCore :: "UserBeat \<Rightarrow> nat \<times> bool \<times> real" where
  "beatCore b = (regionIndex b, isTempoChange b, time b)"

definition sameStructure :: "Engine \<Rightarrow> Engine \<Rightarrow> bool" where
  "sameStructure s s' =
    (map structureOf (regions s') = map structureOf (regions s)
     \<and> beatCore \<circ> beatStore s' = beatCore \<circ> beatStore s
     \<and> userBeatsById s' = userBeatsById s
     \<and> selectedRegionId s' = selectedRegionId s
     \<and> duration s' = duration s
     \<and> viewport s' = viewport s
     \<and> regionIdCounter s' = regionIdCounter s
     \<and> userBeatIdCounter s' = userBeatIdCounter s)"

text \<open>The window test of \<open>drawAutopoints\<close>, and the first instant an auto beat can have.\<close>

definition inWindow :: "real \<Rightarrow> real \<Rightarrow> real \<Rightarrow> bool" where
  "inWindow drawStart drawEnd t = (\<not> (t < drawStart \<or> drawEnd \<le> t))"

definition autoLowerBound :: "TempoRegion \<Rightarrow> real" where
  "autoLowerBound r = (case tempo r of Fixed b ph \<Rightarrow> startTime r + ph | Tapped v \<Rightarrow> startTime r)"

text \<open>
  The neighbours of beat \<open>k\<close> of the region at position \<open>pos\<close>, in the words of the
  specification: the immediate predecessor is the beat before it in the same region, or the
  last beat of the previous region for a region's first beat; the immediate successor is
  the beat after it in the same region, or the first beat of the next region for a
  region's last beat. The final beat is the last beat of the last region.
\<close>

definition predecessorTime ::
  "(nat \<Rightarrow> UserBeat) \<Rightarrow> TempoRegion list \<Rightarrow> nat \<Rightarrow> nat \<Rightarrow> real option" where
  "predecessorTime h rs pos k =
    (if 0 < k then Some (time (h (userBeats (rs ! pos) ! (k - 1))))
     else if 0 < pos \<and> userBeats (rs ! (pos - 1)) \<noteq> []
       then Some (time (h (last (userBeats (rs ! (pos - 1))))))
     else None)"

definition successorTime ::
  "(nat \<Rightarrow> UserBeat) \<Rightarrow> TempoRegion list \<Rightarrow> nat \<Rightarrow> nat \<Rightarrow> real option" where
  "successorTime h rs pos k =
    (if k + 1 < length (userBeats (rs ! pos)) then Some (time (h (userBeats (rs ! pos) ! (k + 1))))
     else if pos + 1 < length rs \<and> userBeats (rs ! (pos + 1)) \<noteq> []
       then Some (time (h (hd (userBeats (rs ! (pos + 1))))))
     else None)"

definition isFinalBeat :: "TempoRegion list \<Rightarrow> nat \<Rightarrow> nat \<Rightarrow> bool" where
  "isFinalBeat rs pos k = (pos + 1 = length rs \<and> k + 1 = length (userBeats (rs ! pos)))"



section \<open>Example inputs\<close>

text \<open>A region with four beats at 0, 0.5, 1 and 1.5 seconds.\<close>

definition exampleStore :: "nat \<Rightarrow> UserBeat" where
  "exampleStore a = \<lparr>regionIndex = 0, isTempoChange = False, time = real a / 2,
     localBeatPeriod = None\<rparr>"

definition exampleRegion :: TempoRegion where
  "exampleRegion = \<lparr>id_region = 1, index = 0, userBeats = [0, 1, 2, 3], autoBeats = [],
     startTime = 0, endTime = 10, offbeatsMarked = False, tempo = Tapped None\<rparr>"

text \<open>A region with three beats at 0, 1 and 2 seconds.\<close>

definition secondsStore :: "nat \<Rightarrow> UserBeat" where
  "secondsStore a = \<lparr>regionIndex = 0, isTempoChange = False, time = real a,
     localBeatPeriod = None\<rparr>"

definition secondsRegion :: TempoRegion where
  "secondsRegion = \<lparr>id_region = 1, index = 0, userBeats = [0, 1, 2], autoBeats = [],
     startTime = 0, endTime = 10, offbeatsMarked = False, tempo = Tapped None\<rparr>"

text \<open>
  A region with three beats at 1, 2 and 4 times the double nearest to 0.1, which is
  \<open>7205759403792794 / 2 ^ 56\<close>: the doubles that the literals \<open>0.1\<close>, \<open>0.2\<close> and \<open>0.4\<close> denote.
\<close>

definition tenthStore :: "nat \<Rightarrow> UserBeat" where
  "tenthStore a = \<lparr>regionIndex = 0, isTempoChange = False,
     time = real a * (7205759403792794 / 2 ^ 56), localBeatPeriod = None\<rparr>"

definition tenthRegion :: TempoRegion where
  "tenthRegion = \<lparr>id_region = 1, index = 0, userBeats = [1, 2, 4], autoBeats = [],
     startTime = 7205759403792794 / 2 ^ 56, endTime = 10, offbeatsMarked = False,
     tempo = Tapped None\<rparr>"

section \<open>Properties\<close>

subsection \<open>Runs of the engine on concrete inputs\<close>

text \<open>
  The equations that unfold a run of the engine on concrete numbers. In the runs below
  \<open>sortJS\<close> is the numeric \<open>sort\<close>; every list that is sorted there has at most three
  elements, all equal, so the order chosen by the sort does not enter the result.
\<close>

lemmas engine_eval = calls_def bindE_def addPoint_def ensureRegion_def findContainingRegion_def
  insertAtOf_def pointAfterOf_def pointBeforeOf_def firstBeat_def splitRegion_def
  tempoChangeAtStart_def insertBeat_def tooClose_def tooCloseBefore_def finishAdd_def
  onRegionsChanged_def recomputeAt_def recomputeTempo_def estimateTempo_def initialEstimate_def
  periodsOf_def dists_def beatTimes_def setTimesBetweenBeats_def localPeriod_def
  recomputePhaseOffset_def phaseError_def drawAutopoints_def drawStartOf_def drawEndOf_def
  drawBuffer_def projectRegion_def placeStep_def computeAutoBeats_def forLoop_def saveState_def
  savedRegion_def savedTempo_def roundTime_def reassignRegionIndices_def deletePoint_def mergeIntoPrevious_def
  removeBeat_def finishDelete_def MIN_BEAT_SPACING_def MAX_TEMPO_def initialEngine_def Let_def
  upt_rec stepsFrom.simps tryMovePoint_def clampBefore_def clampAfter_def clampDuration_def
  moveBeat_def setViewport_def Annotate_def loadedBeats_def loadRegion_def regionEndTime_def
  save_def isSortedAscending_def
  round_def unrounded_def sumLoop_def

text \<open>
  Claim C1 (contiguity and index invariants after every \<open>addPoint\<close>/\<open>deletePoint\<close>) does
  not hold of the code. \<open>userBeatsById\<close> is never pruned, so \<open>deletePoint\<close> accepts the id
  of a beat that is in no region any more; \<open>findIndex\<close> then yields \<open>-1\<close> and
  \<open>splice(-1, 1)\<close> removes the last beat of whatever region sits at the beat's old
  \<open>regionIndex\<close>. In the first run beat 3 was dropped by the merge that \<open>DeletePoint 2\<close>
  performs, in the second it was deleted by the caller before; in both the final call
  empties and removes the last region, and the remaining last region ends at 7 (at 5)
  while the track lasts 10.
\<close>

theorem C1_stale_id_breaks_last_endTime:
  "(case calls sort [AddPoint 1 False, AddPoint 3 True, AddPoint 4 False, AddPoint 5 False,
                    AddPoint 7 True, DeletePoint 2, DeletePoint 3] (initialEngine 10) of
      Inr s \<Rightarrow> map endTime (regions s) = [7] \<and> duration s = 10
    | Inl e \<Rightarrow> False)
   \<and> (case calls sort [AddPoint 1 False, AddPoint 5 True, AddPoint 6 False, DeletePoint 3,
                    DeletePoint 3] (initialEngine 10) of
      Inr s \<Rightarrow> map endTime (regions s) = [5] \<and> duration s = 10
    | Inl e \<Rightarrow> False)"
  by (simp add: engine_eval)

text \<open>
  Claim C2 (deleting the anchor of a non-first region moves all its other beats to the
  predecessor) does not hold of the code: the merge copies
  \<open>userBeats.slice(Math.max(1, userBeats.length - 1))\<close>, which is the last beat only.
  Region 1 holds the anchor 2 and the beats 3 and 4; after \<open>deletePoint(2)\<close> the predecessor
  holds 1 and 4, and beat 3 is in no region.
\<close>

theorem C2_merge_moves_only_last_beat:
  "case calls sort [AddPoint 1 False, AddPoint 3 True, AddPoint 4 False, AddPoint 5 False]
          (initialEngine 10) of
     Inr s \<Rightarrow>
       (case deletePoint sort 2 s of
          Inr s' \<Rightarrow>
            map userBeats (regions s) = [[1], [2, 3, 4]]
            \<and> map (\<lambda>a. isTempoChange (beatStore s a)) [1, 2, 3, 4] = [False, True, False, False]
            \<and> map userBeats (regions s') = [[1, 4]]
            \<and> map endTime (regions s') = [10]
        | Inl e \<Rightarrow> False)
   | Inl e \<Rightarrow> False"
  by (simp add: engine_eval)

text \<open>
  Claim C3 (a tempo-change beat added before all beats of region 0 is inserted into region
  0) does not hold of the code: \<open>splice(insertAt, 0)\<close> is called without the new beat.
  Region 0 holds beat 1 at time 5; after \<open>addPoint({time: 2, isTempoChange: true})\<close> its
  start time is 2, it still holds beat 1 alone, and id 2 is mapped to beat 1.
\<close>

theorem C3_tempo_change_at_start_adds_no_beat:
  "case calls sort [AddPoint 5 False] (initialEngine 10) of
     Inr s \<Rightarrow>
       (case addPoint sort 2 True s of
          Inr (Added, s') \<Rightarrow>
            map userBeats (regions s) = [[1]] \<and> map startTime (regions s) = [5]
            \<and> map userBeats (regions s') = [[1]] \<and> map startTime (regions s') = [2]
            \<and> userBeatIdCounter s' = 2 \<and> userBeatsById s' 2 = Some 1
        | _ \<Rightarrow> False)
   | Inl e \<Rightarrow> False"
  by (simp add: engine_eval)

text \<open>
  Claim C5 (a rejected \<open>addPoint\<close> changes no state) does not hold of the code: on an engine
  without regions the first region is pushed and selected before the containing region
  is looked up. With a track of 10 seconds, \<open>addPoint({time: 10, isTempoChange: false})\<close>
  (a beat at the very end of the track) is rejected, since no region contains 10, and
  leaves a selected region without beats.
\<close>

theorem C5_rejection_keeps_new_region:
  "case addPoint sort 10 False (initialEngine 10) of
     Inr (Rejected, s') \<Rightarrow>
       regions (initialEngine 10) = [] \<and> selectedRegionId (initialEngine 10) = None
       \<and> map userBeats (regions s') = [[]] \<and> map startTime (regions s') = [10]
       \<and> map endTime (regions s') = [10] \<and> selectedRegionId s' = Some 1
       \<and> saveCalls s' = []
   | _ \<Rightarrow> False"
  by (simp add: engine_eval)

text \<open>
  Claim C6 (\<open>deletePoint\<close> throws exactly when the id is not that of an existing beat, and
  a deleted id changes nothing) does not hold of the code: the id of a deleted beat stays
  in \<open>userBeatsById\<close>. After beats 1, 2, 3 are added and beat 2 is deleted, a second
  \<open>deletePoint(2)\<close> returns normally and removes beat 3.
\<close>

theorem C6_deleted_id_is_accepted:
  "case calls sort [AddPoint 1 False, AddPoint 2 False, AddPoint 3 False, DeletePoint 2]
          (initialEngine 10) of
     Inr s \<Rightarrow>
       (case deletePoint sort 2 s of
          Inr s' \<Rightarrow>
            map userBeats (regions s) = [[1, 3]] \<and> map userBeats (regions s') = [[1]]
        | Inl e \<Rightarrow> False)
   | Inl e \<Rightarrow> False"
  by (simp add: engine_eval)

subsection \<open>The rounding of doubles\<close>

lemma roundHalfEven_int [simp]: "roundHalfEven (real_of_int z) = z"
  by (simp add: roundHalfEven_def)

lemma roundHalfEven_error: "\<bar>real_of_int (roundHalfEven y) - y\<bar> \<le> 1 / 2"
proof -
  have "real_of_int \<lfloor>y\<rfloor> \<le> y" "y < real_of_int \<lfloor>y\<rfloor> + 1"
    by linarith+
  then show ?thesis
    by (simp add: roundHalfEven_def Let_def)
qed

lemma binary64_zero [simp]: "binary64 0 = 0"
  by (simp add: binary64_def)

lemma exponent_le:
  assumes "x \<noteq> 0"
  shows "2 powr real_of_int \<lfloor>log 2 \<bar>x\<bar>\<rfloor> \<le> \<bar>x\<bar>"
proof -
  have "real_of_int \<lfloor>log 2 \<bar>x\<bar>\<rfloor> \<le> log 2 \<bar>x\<bar>" by simp
  then have "2 powr real_of_int \<lfloor>log 2 \<bar>x\<bar>\<rfloor> \<le> 2 powr log 2 \<bar>x\<bar>"
    by (simp only: powr_le_cancel_iff[of 2] one_less_numeral_iff semiring_norm)
  with assms show ?thesis by simp
qed

lemma binary64_error: "\<bar>binary64 x - x\<bar> \<le> \<bar>x\<bar> / 2 ^ 53"
proof (cases "x = 0")
  case True
  then show ?thesis by simp
next
  case False
  define E where "E = \<lfloor>log 2 \<bar>x\<bar>\<rfloor>"
  define g where "g = 2 powr real_of_int (E - 52)"
  have gpos: "0 < g" by (simp add: g_def)
  have g52: "g * 2 ^ 52 = 2 powr real_of_int E"
  proof -
    have "2 powr real_of_int (E - 52) * 2 powr 52 = 2 powr (real_of_int (E - 52) + 52)"
      by (simp only: powr_add)
    then show ?thesis by (simp add: g_def)
  qed
  have b: "binary64 x = real_of_int (roundHalfEven (x / g)) * g"
    using False by (simp add: binary64_def E_def g_def Let_def)
  have "\<bar>binary64 x - x\<bar> = \<bar>real_of_int (roundHalfEven (x / g)) - x / g\<bar> * g"
  proof -
    have "binary64 x - x = (real_of_int (roundHalfEven (x / g)) - x / g) * g"
      using gpos by (simp add: b field_simps)
    then show ?thesis using gpos by (simp add: abs_mult)
  qed
  also have "\<dots> \<le> 1 / 2 * g"
    using roundHalfEven_error[of "x / g"] gpos by (intro mult_right_mono) auto
  also have "\<dots> = 2 powr real_of_int E / 2 ^ 53"
    using g52 by (simp add: field_simps)
  also have "\<dots> \<le> \<bar>x\<bar> / 2 ^ 53"
    using exponent_le[OF False] by (simp add: E_def divide_right_mono)
  finally show ?thesis .
qed

lemma binary64_exact:
  assumes x: "x = real_of_int n * 2 powr real_of_int e" and n: "\<bar>n\<bar> < 2 ^ 53"
  shows "binary64 x = x"
proof (cases "x = 0")
  case True
  then show ?thesis by simp
next
  case False
  define E where "E = \<lfloor>log 2 \<bar>x\<bar>\<rfloor>"
  have n0: "n \<noteq> 0" using False x by auto
  have ax: "\<bar>x\<bar> = real_of_int \<bar>n\<bar> * 2 powr real_of_int e"
    by (simp add: x abs_mult)
  have "real_of_int \<bar>n\<bar> < 2 ^ 53"
    using n by (metis of_int_less_numeral_power_cancel_iff)
  then have "\<bar>x\<bar> < 2 ^ 53 * 2 powr real_of_int e"
    unfolding ax by (intro mult_strict_right_mono) auto
  also have "\<dots> = 2 powr (53 + real_of_int e)"
    by (simp add: powr_add)
  finally have "log 2 \<bar>x\<bar> < 53 + real_of_int e"
    using False by (simp add: log_less_iff)
  then have "E < 53 + e"
    unfolding E_def by linarith
  then have le: "E - 52 \<le> e" by simp
  define k where "k = nat (e - (E - 52))"
  have ek: "real_of_int e = real_of_int (E - 52) + real k"
    using le by (simp add: k_def)
  have p: "2 powr real_of_int e = 2 powr real_of_int (E - 52) * 2 ^ k"
    unfolding ek by (simp add: powr_add powr_realpow)
  have q: "x / 2 powr real_of_int (E - 52) = real_of_int (n * 2 ^ k)"
    unfolding x p by simp
  have "binary64 x = real_of_int (roundHalfEven (x / 2 powr real_of_int (E - 52)))
      * 2 powr real_of_int (E - 52)"
    using False by (simp add: binary64_def E_def Let_def)
  also have "\<dots> = real_of_int (n * 2 ^ k) * 2 powr real_of_int (E - 52)"
    unfolding q roundHalfEven_int ..
  also have "\<dots> = x"
    unfolding x p by simp
  finally show ?thesis .
qed

lemma binary64_bounds:
  assumes "0 \<le> x"
  shows "x * (1 - 1 / 2 ^ 53) \<le> binary64 x" "binary64 x \<le> x * (1 + 1 / 2 ^ 53)"
proof -
  have "\<bar>binary64 x - x\<bar> \<le> x / 2 ^ 53"
    using binary64_error[of x] assms by simp
  then have "x - x / 2 ^ 53 \<le> binary64 x" "binary64 x \<le> x + x / 2 ^ 53"
    by linarith+
  then show "x * (1 - 1 / 2 ^ 53) \<le> binary64 x" "binary64 x \<le> x * (1 + 1 / 2 ^ 53)"
    by (simp_all add: algebra_simps)
qed

lemma binary64_near:
  assumes "0 \<le> x"
  shows "x * (99 / 100) \<le> binary64 x" "binary64 x \<le> x * (101 / 100)"
proof -
  have "x * (99 / 100) \<le> x * (1 - 1 / 2 ^ 53)"
    using assms by (intro mult_left_mono) simp_all
  with binary64_bounds(1)[OF assms] show "x * (99 / 100) \<le> binary64 x" by linarith
  have "x * (1 + 1 / 2 ^ 53) \<le> x * (101 / 100)"
    using assms by (intro mult_left_mono) simp_all
  with binary64_bounds(2)[OF assms] show "binary64 x \<le> x * (101 / 100)" by linarith
qed

lemma binary64_threshold:
  assumes P: "0 < P"
  shows "P < binary64 (P * binary64 (12 / 10))" "binary64 (P * binary64 (12 / 10)) \<le> 2 * P"
proof -
  define c where "c = binary64 (12 / 10)"
  have c: "118 / 100 \<le> c" "c \<le> 122 / 100"
    using binary64_near[of "12 / 10"] by (simp_all add: c_def)
  have y: "P * (118 / 100) \<le> P * c" "P * c \<le> P * (122 / 100)"
    using c P by (simp_all add: mult_left_mono)
  then have y0: "0 \<le> P * c" using P by linarith
  from binary64_near[OF y0] y P show "P < binary64 (P * binary64 (12 / 10))"
    "binary64 (P * binary64 (12 / 10)) \<le> 2 * P"
    unfolding c_def by linarith+
qed

lemma binary64_discard:
  assumes n: "5 \<le> n"
  shows "2 * nat \<lceil>binary64 (real n * binary64 (2 / 10))\<rceil> < n"
proof -
  define c where "c = binary64 (2 / 10)"
  have c: "0 \<le> c" "c \<le> 21 / 100"
    using binary64_near[of "2 / 10"] by (simp_all add: c_def)
  have y: "0 \<le> real n * c" "real n * c \<le> real n * (21 / 100)"
  proof -
    show "0 \<le> real n * c" using c(1) by simp
    show "real n * c \<le> real n * (21 / 100)"
      using c(2) by (intro mult_left_mono) simp_all
  qed
  from binary64_near[OF y(1)] y have z: "0 \<le> binary64 (real n * c)"
    "binary64 (real n * c) \<le> real n * (22 / 100)"
    by linarith+
  have "real_of_int \<lceil>binary64 (real n * c)\<rceil> < binary64 (real n * c) + 1"
    by linarith
  with z have "real_of_int \<lceil>binary64 (real n * c)\<rceil> < real n * (22 / 100) + 1"
    by linarith
  moreover have "real n * (22 / 100) + 1 \<le> real n / 2"
    using n by simp
  ultimately have "2 * real_of_int \<lceil>binary64 (real n * c)\<rceil> < real n"
    by linarith
  then have lt: "2 * \<lceil>binary64 (real n * c)\<rceil> < int n"
    by linarith
  show ?thesis
  proof (cases "0 \<le> \<lceil>binary64 (real n * c)\<rceil>")
    case True
    then have "int (nat \<lceil>binary64 (real n * c)\<rceil>) = \<lceil>binary64 (real n * c)\<rceil>"
      by simp
    with lt have "int (2 * nat \<lceil>binary64 (real n * c)\<rceil>) < int n"
      by simp
    then show ?thesis unfolding c_def by (simp only: of_nat_less_iff)
  next
    case False
    then have "nat \<lceil>binary64 (real n * c)\<rceil> = 0" by simp
    with n show ?thesis unfolding c_def by simp
  qed
qed

lemma binary64_grid:
  assumes P: "P = real m * 2 powr real_of_int e" and j: "j * m < 2 ^ 53"
  shows "binary64 (real j * P) = real j * P"
proof (rule binary64_exact[where n = "int (j * m)" and e = e])
  show "real j * P = real_of_int (int (j * m)) * 2 powr real_of_int e"
    by (simp add: P)
  have "int (j * m) < 2 ^ 53"
    using j by (metis of_nat_less_numeral_power_cancel_iff)
  then show "\<bar>int (j * m)\<bar> < 2 ^ 53" by simp
qed

lemma binary64_nat:
  assumes "j < 2 ^ 53"
  shows "binary64 (real j) = real j"
  using binary64_grid[of 1 1 0 j] assms by simp

lemma binary64_eval:
  assumes lo: "2 ^ 52 \<le> \<bar>x\<bar> * 2 ^ k" and hi: "\<bar>x\<bar> * 2 ^ k < 2 ^ 53"
  shows "binary64 x = real_of_int (roundHalfEven (x * 2 ^ k)) / 2 ^ k"
proof -
  have x0: "x \<noteq> 0" using lo by auto
  have p: "(2::real) ^ k = 2 powr real k" by (simp add: powr_realpow)
  have "2 powr (52 - real k) \<le> \<bar>x\<bar>"
  proof -
    have "2 powr (52 - real k) = 2 ^ 52 / 2 ^ k"
      by (simp add: powr_diff p)
    also have "\<dots> \<le> \<bar>x\<bar>"
      using lo by (simp add: field_simps)
    finally show ?thesis .
  qed
  then have l1: "52 - real k \<le> log 2 \<bar>x\<bar>"
    using x0 by (simp add: le_log_iff)
  have "\<bar>x\<bar> < 2 powr (53 - real k)"
  proof -
    have "\<bar>x\<bar> < 2 ^ 53 / 2 ^ k"
      using hi by (simp add: field_simps)
    also have "\<dots> = 2 powr (53 - real k)"
      by (simp add: powr_diff p)
    finally show ?thesis .
  qed
  then have l2: "log 2 \<bar>x\<bar> < 53 - real k"
    using x0 by (simp add: log_less_iff)
  have "\<lfloor>log 2 \<bar>x\<bar>\<rfloor> = 52 - int k"
    using l1 l2 by (intro floor_unique) simp_all
  then have e: "\<lfloor>log 2 \<bar>x\<bar>\<rfloor> - 52 = - int k" by simp
  have q: "2 powr real_of_int (- int k) = 1 / 2 ^ k"
    by (simp add: powr_minus p field_simps)
  show ?thesis
    using x0 by (simp add: binary64_def Let_def e q del: of_int_minus)
qed

lemma binary64_tenth: "binary64 (1 / 10) = 7205759403792794 / 2 ^ 56"
  by (subst binary64_eval[where k = 56]) (simp_all add: roundHalfEven_def)

lemma binary64_three_tenths:
  "binary64 (7205759403792794 / 2 ^ 56 + 2 * (7205759403792794 / 2 ^ 56))
    = 5404319552844596 / 2 ^ 54"
  by (subst binary64_eval[where k = 54]) (simp_all add: roundHalfEven_def)

lemma binary64_third:
  "binary64 (5404319552844596 / 2 ^ 54 / 3) = 7205759403792795 / 2 ^ 56"
  by (subst binary64_eval[where k = 56]) (simp_all add: roundHalfEven_def)

lemma binary64_fifth: "binary64 (1 / 5) = 3602879701896397 / 2 ^ 54"
  by (subst binary64_eval[where k = 55]) (simp_all add: roundHalfEven_def)

lemma binary64_one_and_fifth:
  "binary64 (1 + 3602879701896397 / 2 ^ 54) = 5404319552844595 / 2 ^ 52"
  by (subst binary64_eval[where k = 52]) (simp_all add: roundHalfEven_def)

subsection \<open>Tapped tempo on exact multiples of a period\<close>

lemma all_same_replicate:
  assumes "set xs \<subseteq> {a}"
  shows "xs = replicate (length xs) a"
  using assms by (intro replicate_eqI) auto

lemma fold_grid:
  assumes ex: "\<And>j. j \<le> K \<Longrightarrow> fl (real j * u) = real j * u"
    and bound: "a + sum_list gs \<le> K"
  shows "fold (\<lambda>x sum. fl (sum + x)) (map (\<lambda>g. real g * u) gs) (real a * u)
    = real (a + sum_list gs) * u"
  using bound
proof (induction gs arbitrary: a)
  case Nil
  then show ?case by simp
next
  case (Cons g gs)
  have "fl (real a * u + real g * u) = real (a + g) * u"
    using ex[of "a + g"] Cons.prems by (simp add: algebra_simps)
  moreover have "fold (\<lambda>x sum. fl (sum + x)) (map (\<lambda>g. real g * u) gs) (real (a + g) * u)
      = real (a + g + sum_list gs) * u"
    using Cons.prems by (intro Cons.IH) simp
  ultimately show ?case by (simp add: add.assoc)
qed

lemma sumLoop_grid:
  assumes ex: "\<And>j. j \<le> K \<Longrightarrow> fl (real j * u) = real j * u"
    and bound: "sum_list gs \<le> K"
  shows "sumLoop fl (map (\<lambda>g. real g * u) gs) = real (sum_list gs) * u"
  using fold_grid[of K fl u 0 gs, OF ex] bound by (simp add: sumLoop_def)

lemma length_le_sum_list:
  assumes "\<And>g. g \<in> set gs \<Longrightarrow> (1::nat) \<le> g"
  shows "length gs \<le> sum_list gs"
  using assms
proof (induction gs)
  case Nil
  then show ?case by simp
next
  case (Cons a gs)
  have "1 \<le> a" by (rule Cons.prems) simp
  moreover have "length gs \<le> sum_list gs"
    using Cons.prems by (intro Cons.IH) simp
  ultimately show ?case by simp
qed

lemma initialEstimate_unit_gaps:
  assumes P: "0 < P"
    and perm: "\<And>xs. mset (sortJS xs) = mset xs"
    and ge1: "\<And>g. g \<in> set gs \<Longrightarrow> 1 \<le> g"
    and one: "(1::nat) \<in> set gs"
    and K: "length gs \<le> K"
    and ex: "\<And>j. j \<le> K \<Longrightarrow> fl (real j * P) = real j * P"
    and thr: "P < fl (P * fl (12 / 10))" "fl (P * fl (12 / 10)) \<le> 2 * P"
    and disc: "\<And>n. 5 \<le> n \<Longrightarrow> 2 * nat \<lceil>fl (real n * fl (2 / 10))\<rceil> < n"
  shows "initialEstimate fl sortJS (map (\<lambda>g. real g * P) gs) = Some P"
proof -
  define D where "D = map (\<lambda>g. real g * P) gs"
  from one obtain d rest where ds: "D = d # rest"
    by (cases D) (auto simp: D_def)
  have Pin: "P \<in> set D"
    using one by (force simp: D_def)
  have lower: "P \<le> x" if "x \<in> set D" for x
  proof -
    from that obtain g where g: "g \<in> set gs" "x = real g * P"
      by (auto simp: D_def)
    from ge1[OF g(1)] have "1 \<le> real g" by simp
    then have "1 * P \<le> real g * P" using P by (intro mult_right_mono) auto
    with g show "P \<le> x" by simp
  qed
  have "fold min rest d = Min (set (d # rest))"
    by (rule Min.set_eq_fold[symmetric])
  also have "\<dots> = P"
    unfolding ds[symmetric] using Pin lower by (intro Min_eqI) auto
  finally have minD: "fold min rest d = P" .
  define T where "T = fl (P * fl (12 / 10))"
  define cand where "cand = filter (\<lambda>x. x < T) D"
  have candsub: "set cand \<subseteq> {P}"
  proof
    fix x assume "x \<in> set cand"
    then obtain g where g: "g \<in> set gs" "x = real g * P" "real g * P < T"
      by (auto simp: cand_def D_def)
    have "g < 2"
    proof (rule ccontr)
      assume "\<not> g < 2"
      then have "2 \<le> real g" by simp
      then have "2 * P \<le> real g * P" using P by (intro mult_right_mono) auto
      with g(3) thr(2) show False by (simp add: T_def)
    qed
    with ge1[OF g(1)] have "g = 1" by simp
    with g show "x \<in> {P}" by simp
  qed
  have candne: "P \<in> set cand"
    using Pin thr(1) by (simp add: cand_def T_def)
  define srt where "srt = sortJS cand"
  have setc: "set srt = set cand"
    unfolding srt_def using perm[of cand] by (metis set_mset_mset)
  have lenc: "length srt = length cand"
    unfolding srt_def using perm[of cand] by (metis size_mset)
  have crep: "srt = replicate (length srt) P"
    using setc candsub by (intro all_same_replicate) simp
  have "cand \<noteq> []"
    using candne by (metis empty_iff empty_set)
  then have clen: "0 < length srt"
    by (metis length_greater_0_conv lenc)
  define m where "m = length srt"
  have "length cand \<le> length D"
    by (simp add: cand_def)
  also have "\<dots> = length gs" by (simp add: D_def)
  finally have mK: "m \<le> K" using K lenc by (simp add: m_def)
  define c' where "c' = (if 5 \<le> m
               then let discard = nat \<lceil>fl (real m * fl (2 / 10))\<rceil>
                    in take (m - discard - discard) (drop discard srt)
               else srt)"
  have "\<exists>k>0. k \<le> K \<and> c' = replicate k P"
  proof (cases "5 \<le> m")
    case True
    let ?dc = "nat \<lceil>fl (real m * fl (2 / 10))\<rceil>"
    have "c' = take (m - ?dc - ?dc) (drop ?dc (replicate m P))"
      using True crep by (simp add: c'_def m_def Let_def)
    also have "\<dots> = replicate (m - ?dc - ?dc) P"
      by (simp add: min_def)
    finally show ?thesis using disc[OF True] mK
      by (intro exI[of _ "m - ?dc - ?dc"]) auto
  next
    case False
    then have "c' = replicate m P" using crep by (simp add: c'_def m_def)
    then show ?thesis using clen m_def mK by auto
  qed
  then obtain k where k: "0 < k" "k \<le> K" "c' = replicate k P" by blast
  have sl: "sumLoop fl (replicate k P) = real k * P"
    using sumLoop_grid[of K fl P "replicate k 1", OF ex] k(2)
    by (simp add: sum_list_replicate)
  have "fl (real 1 * P) = real 1 * P"
    using k by (intro ex) simp
  then have flP: "fl P = P" by simp
  have "initialEstimate fl sortJS D =
      (if length c' = 0 then None else Some (fl (sumLoop fl c' / real (length c'))))"
    by (simp only: initialEstimate_def ds list.case Let_def minD c'_def m_def srt_def cand_def T_def)
  also have "\<dots> = Some P"
    using k flP by (simp add: sl)
  finally show ?thesis unfolding D_def .
qed

lemma estimateTempo_unit_gaps:
  assumes P: "0 < P"
    and perm: "\<And>xs. mset (sortJS xs) = mset xs"
    and ds: "dists fl ts = map (\<lambda>g. real g * P) gs"
    and ge1: "\<And>g. g \<in> set gs \<Longrightarrow> 1 \<le> g"
    and one: "(1::nat) \<in> set gs"
    and K: "sum_list gs \<le> K"
    and ex: "\<And>j. j \<le> K \<Longrightarrow> fl (real j * P) = real j * P"
    and exn: "\<And>j. j \<le> K \<Longrightarrow> fl (real j) = real j"
    and thr: "P < fl (P * fl (12 / 10))" "fl (P * fl (12 / 10)) \<le> 2 * P"
    and disc: "\<And>n. 5 \<le> n \<Longrightarrow> 2 * nat \<lceil>fl (real n * fl (2 / 10))\<rceil> < n"
  shows "estimateTempo fl sortJS ts = Estimate P 0"
proof -
  have "length gs \<le> sum_list gs"
    using ge1 by (rule length_le_sum_list)
  with K have lK: "length gs \<le> K" by simp
  have ie: "initialEstimate fl sortJS (dists fl ts) = Some P"
    unfolding ds using P perm ge1 one lK ex thr disc by (rule initialEstimate_unit_gaps)
  have gK: "g \<le> K" if "g \<in> set gs" for g
    using that K member_le_sum_list[of g gs] by simp
  have sumpos: "0 < sum_list gs"
    using one by (metis gr0I sum_list_eq_0_iff zero_neq_one)
  have fl0: "fl 0 = 0" using exn[of 0] by simp
  have flP: "fl P = P" using ex[of 1] sumpos K by simp
  have per: "periodsOf fl P (real g * P) = int g" if "g \<in> set gs" for g
    using P exn[OF gK[OF that]] by (simp add: periodsOf_def)
  have permap: "map (\<lambda>d. real_of_int (periodsOf fl P d)) (dists fl ts) = map (\<lambda>g. real g * 1) gs"
    unfolding ds map_map o_def using per by (intro map_cong) auto
  have cnt: "sumLoop fl (map (\<lambda>d. real_of_int (periodsOf fl P d)) (dists fl ts))
      = real (sum_list gs)"
    unfolding permap using sumLoop_grid[of K fl 1 gs] exn K by simp
  have sumds: "sumLoop fl (dists fl ts) = real (sum_list gs) * P"
    unfolding ds using ex K by (rule sumLoop_grid)
  have nz: "real (sum_list gs) \<noteq> 0"
    using sumpos by linarith
  have mp: "fl (sumLoop fl (dists fl ts)
      / sumLoop fl (map (\<lambda>d. real_of_int (periodsOf fl P d)) (dists fl ts))) = P"
    unfolding cnt sumds using nz flP by simp
  have term0: "fl ((fl (fl (60 / P)
        - fl (60 / fl (real g * P / real_of_int (periodsOf fl P (real g * P))))))\<^sup>2) = 0"
    if "g \<in> set gs" for g
  proof -
    from ge1[OF that] have "real g \<noteq> 0" by simp
    then have "real g * P / real_of_int (periodsOf fl P (real g * P)) = P"
      using per[OF that] by simp
    then show ?thesis using flP fl0 by simp
  qed
  have var0: "map (\<lambda>d. fl ((fl (fl (60 / P)
        - fl (60 / fl (d / real_of_int (periodsOf fl P d)))))\<^sup>2)) (dists fl ts)
      = map (\<lambda>g. real g * 0) gs"
    unfolding ds map_map o_def using term0 by (intro map_cong) auto
  have "sumLoop fl (map (\<lambda>g. real g * 0) gs) = real (sum_list gs) * 0"
    using K by (intro sumLoop_grid[of K]) (simp_all add: fl0)
  then have v: "sumLoop fl (map (\<lambda>d. fl ((fl (fl (60 / P)
        - fl (60 / fl (d / real_of_int (periodsOf fl P d)))))\<^sup>2)) (dists fl ts)) = 0"
    unfolding var0 by simp
  show ?thesis
    unfolding estimateTempo_def Let_def ie option.case mp v
    by (simp add: fl0)
qed

lemma dists_multiples:
  fixes ks :: "nat list"
  assumes asc: "sorted_wrt (<) ks"
    and ex: "\<And>j. j \<le> last ks \<Longrightarrow> fl (real j * P) = real j * P"
  shows "dists fl (map (\<lambda>k. real k * P) ks)
    = map (\<lambda>g. real g * P) (map (\<lambda>i. ks ! i - ks ! (i - 1)) [1 ..< length ks])"
  unfolding dists_def map_map o_def length_map
proof (rule map_cong)
  show "[1 ..< length ks] = [1 ..< length ks]" ..
next
  fix i assume "i \<in> set [1 ..< length ks]"
  then have i: "1 \<le> i" "i < length ks" by auto
  then have ne: "ks \<noteq> []" by auto
  from i have lt: "ks ! (i - 1) < ks ! i"
    using asc by (simp add: sorted_wrt_iff_nth_less)
  have "ks ! i \<le> last ks"
  proof (cases "i = length ks - 1")
    case True
    with i show ?thesis by (simp add: last_conv_nth[OF ne])
  next
    case False
    with i have "ks ! i < ks ! (length ks - 1)"
      using asc by (simp add: sorted_wrt_iff_nth_less)
    with i show ?thesis by (simp add: last_conv_nth[OF ne])
  qed
  then have "fl (real (ks ! i - ks ! (i - 1)) * P) = real (ks ! i - ks ! (i - 1)) * P"
    by (intro ex) simp
  moreover have "real (ks ! i - ks ! (i - 1)) = real (ks ! i) - real (ks ! (i - 1))"
    using lt by simp
  ultimately show "fl (map (\<lambda>k. real k * P) ks ! i - map (\<lambda>k. real k * P) ks ! (i - 1))
      = real (ks ! i - ks ! (i - 1)) * P"
    using i by (simp add: algebra_simps)
qed

lemma gaps_sum:
  fixes ks :: "nat list"
  assumes asc: "sorted_wrt (<) ks"
  shows "sum_list (map (\<lambda>i. ks ! i - ks ! (i - 1)) [1 ..< length ks]) \<le> last ks"
  using asc
proof (induction ks rule: rev_induct)
  case Nil
  then show ?case by simp
next
  case (snoc k ks)
  show ?case
  proof (cases "ks = []")
    case True
    then show ?thesis by simp
  next
    case False
    from snoc.prems have asc': "sorted_wrt (<) ks" and lt: "last ks < k"
      using False by (auto simp: sorted_wrt_append)
    have idx: "[1 ..< length (ks @ [k])] = [1 ..< length ks] @ [length ks]"
      using False by (cases ks) auto
    have old: "map (\<lambda>i. (ks @ [k]) ! i - (ks @ [k]) ! (i - 1)) [1 ..< length ks]
        = map (\<lambda>i. ks ! i - ks ! (i - 1)) [1 ..< length ks]"
      by (intro map_cong) (auto simp: nth_append)
    have new: "(ks @ [k]) ! length ks - (ks @ [k]) ! (length ks - 1) = k - last ks"
      using False by (simp add: nth_append last_conv_nth)
    have "sum_list (map (\<lambda>i. (ks @ [k]) ! i - (ks @ [k]) ! (i - 1)) [1 ..< length (ks @ [k])])
        = sum_list (map (\<lambda>i. ks ! i - ks ! (i - 1)) [1 ..< length ks]) + (k - last ks)"
      unfolding idx map_append sum_list_append old using new by simp
    also have "\<dots> \<le> last ks + (k - last ks)"
      using snoc.IH[OF asc'] by simp
    also have "\<dots> = k" using lt by simp
    finally show ?thesis by simp
  qed
qed

lemma estimateTempo_binary64_grid:
  fixes ks :: "nat list"
  assumes P: "0 < P"
    and perm: "\<And>xs. mset (sortJS xs) = mset xs"
    and asc: "sorted_wrt (<) ks"
    and unit: "\<exists>i. Suc i < length ks \<and> ks ! Suc i = Suc (ks ! i)"
    and grid: "P = real m * 2 powr real_of_int e"
    and top: "last ks * m < 2 ^ 53"
  shows "estimateTempo binary64 sortJS (map (\<lambda>k. real k * P) ks) = Estimate P 0"
proof -
  define gs where "gs = map (\<lambda>i. ks ! i - ks ! (i - 1)) [1 ..< length ks]"
  from unit obtain i where i: "Suc i < length ks" "ks ! Suc i = Suc (ks ! i)"
    by blast
  have m: "0 < m"
    using P grid by (cases m) auto
  have jm: "j * m < 2 ^ 53" if "j \<le> last ks" for j
  proof -
    from that have "j * m \<le> last ks * m" by (rule mult_le_mono1)
    then show ?thesis using top by (rule le_less_trans)
  qed
  have ex: "binary64 (real j * P) = real j * P" if "j \<le> last ks" for j
    using grid jm[OF that] by (rule binary64_grid)
  have exn: "binary64 (real j) = real j" if "j \<le> last ks" for j
  proof -
    have "j * 1 \<le> j * m" using m by (intro mult_le_mono2) simp
    then have "j \<le> j * m" by simp
    then have "j < 2 ^ 53" using jm[OF that] by (rule le_less_trans)
    then show ?thesis by (rule binary64_nat)
  qed
  have ge1: "1 \<le> g" if "g \<in> set gs" for g
  proof -
    from that obtain j where j: "1 \<le> j" "j < length ks" "g = ks ! j - ks ! (j - 1)"
      by (auto simp: gs_def)
    then have "ks ! (j - 1) < ks ! j"
      using asc by (simp add: sorted_wrt_iff_nth_less)
    with j show ?thesis by simp
  qed
  have "ks ! Suc i - ks ! (Suc i - 1) \<in> set gs"
    unfolding gs_def using i by (intro image_eqI[where x = "Suc i"] |simp)+
  then have one: "1 \<in> set gs"
    using i by simp
  have K: "sum_list gs \<le> last ks"
    unfolding gs_def using asc by (rule gaps_sum)
  have ds: "dists binary64 (map (\<lambda>k. real k * P) ks) = map (\<lambda>g. real g * P) gs"
    unfolding gs_def using asc ex by (rule dists_multiples)
  show ?thesis
    using P perm ds ge1 one K ex exn binary64_threshold[OF P] binary64_discard
    by (rule estimateTempo_unit_gaps)
qed

text \<open>
  Claim C8 as stated (beats at exact multiples of a period \<open>P\<close> give \<open>meanPeriod = P\<close>
  and \<open>stddev = 0\<close>) fails on the code in two ways. The estimator takes the smallest gap as
  its reference: beats at 0, 1 and 2 are multiples \<open>0, 2, 4\<close> of \<open>P = 1/2\<close>, and the estimate
  is a mean period of 1, in a run of the engine and in double arithmetic alike. And the
  sums of the estimator are rounded: beats at 1, 2 and 4 times the double \<open>P\<close> nearest to 0.1
  are exact multiples of \<open>P\<close> with a smallest gap of \<open>P\<close>, the sum \<open>P + 2 * P\<close> of the two gaps
  is not a double, and the estimate is the next double after \<open>P\<close>.
\<close>

theorem C8_counterexample:
  "(case calls sort [AddPoint 0 False, AddPoint 1 False, AddPoint 2 False] (initialEngine 10) of
      Inr s \<Rightarrow>
        map (beatTimes (beatStore s)) (regions s) = [map (\<lambda>k. real k * (1 / 2)) [0, 2, 4]]
        \<and> map tempo (regions s) = [Tapped (Some (Estimate 1 0))]
    | Inl e \<Rightarrow> False)
   \<and> beatTimes secondsStore secondsRegion = map (\<lambda>k. real k * (1 / 2)) [0, 2, 4]
   \<and> tempo (recomputeTempo binary64 sort secondsStore secondsRegion)
       = Tapped (Some (Estimate 1 0))
   \<and> binary64 (1 / 10) = 7205759403792794 / 2 ^ 56
   \<and> beatTimes tenthStore tenthRegion
       = map (\<lambda>k. real k * (7205759403792794 / 2 ^ 56)) [1, 2, 4]
   \<and> (case tempo (recomputeTempo binary64 sort tenthStore tenthRegion) of
         Tapped (Some (Estimate mp sd)) \<Rightarrow> mp = 7205759403792795 / 2 ^ 56
       | _ \<Rightarrow> False)"
proof -
  have run: "case calls sort [AddPoint 0 False, AddPoint 1 False, AddPoint 2 False]
        (initialEngine 10) of
      Inr s \<Rightarrow>
        map (beatTimes (beatStore s)) (regions s) = [map (\<lambda>k. real k * (1 / 2)) [0, 2, 4]]
        \<and> map tempo (regions s) = [Tapped (Some (Estimate 1 0))]
    | Inl e \<Rightarrow> False"
    by (simp add: engine_eval)
  have st: "beatTimes secondsStore secondsRegion = map (\<lambda>k. real k * 1) [0, 1, 2]"
    by (simp add: beatTimes_def secondsStore_def secondsRegion_def)
  have "estimateTempo binary64 sort (map (\<lambda>k. real k * 1) [0, 1, 2]) = Estimate 1 0"
  proof (rule estimateTempo_binary64_grid[where m = 1 and e = 0])
    show "\<exists>i. Suc i < length [0, 1, 2 :: nat] \<and> [0, 1, 2 :: nat] ! Suc i = Suc ([0, 1, 2] ! i)"
      by (rule exI[of _ 0]) simp
  qed simp_all
  then have sec: "tempo (recomputeTempo binary64 sort secondsStore secondsRegion)
      = Tapped (Some (Estimate 1 0))"
    unfolding st[symmetric] by (simp add: recomputeTempo_def secondsRegion_def)
  define P :: real where "P = 7205759403792794 / 2 ^ 56"
  have Ppos: "0 < P" by (simp add: P_def)
  have grid: "P = real 3602879701896397 * 2 powr real_of_int (- 55)"
    by (simp add: P_def powr_minus)
  have e1: "binary64 P = P"
    using binary64_grid[OF grid, of 1] by simp
  have e2: "binary64 (2 * P) = 2 * P"
    using binary64_grid[OF grid, of 2] by simp
  have ex: "binary64 (real j * P) = real j * P" if "j \<le> 2" for j
  proof -
    from that consider "j = 0" | "j = 1" | "j = 2" by linarith
    then show ?thesis using e1 e2 by cases simp_all
  qed
  have tt: "beatTimes tenthStore tenthRegion = [P, 2 * P, 4 * P]"
    by (simp add: beatTimes_def tenthStore_def tenthRegion_def P_def)
  have d: "dists binary64 [P, 2 * P, 4 * P] = [P, 2 * P]"
    by (simp add: dists_def upt_rec e1 e2)
  have "initialEstimate binary64 sort (map (\<lambda>g. real g * P) [1, 2]) = Some P"
    using Ppos _ _ _ _ ex binary64_threshold[OF Ppos] binary64_discard
    by (rule initialEstimate_unit_gaps[where K = 2]) auto
  then have ie: "initialEstimate binary64 sort [P, 2 * P] = Some P"
    by simp
  have b1: "binary64 1 = 1" "binary64 2 = 2" "binary64 3 = 3"
    using binary64_nat[of 1] binary64_nat[of 2] binary64_nat[of 3] by simp_all
  have per: "periodsOf binary64 P P = 1" "periodsOf binary64 P (2 * P) = 2"
    using Ppos by (simp_all add: periodsOf_def b1)
  have "sumLoop binary64 [P, 2 * P] = binary64 (binary64 P + 2 * P)"
    by (simp add: sumLoop_def)
  also have "\<dots> = binary64 (P + 2 * P)"
    by (simp only: e1)
  also have "\<dots> = 5404319552844596 / 2 ^ 54"
    unfolding P_def by (rule binary64_three_tenths)
  finally have sm: "sumLoop binary64 [P, 2 * P] = 5404319552844596 / 2 ^ 54" .
  have cn: "sumLoop binary64 [1, 2] = 3"
    by (simp add: sumLoop_def b1)
  have pm: "map (\<lambda>d. real_of_int (periodsOf binary64 P d)) [P, 2 * P] = [1, 2]"
    by (simp add: per)
  have mp: "binary64 (sumLoop binary64 [P, 2 * P]
      / sumLoop binary64 (map (\<lambda>d. real_of_int (periodsOf binary64 P d)) [P, 2 * P]))
      = 7205759403792795 / 2 ^ 56"
    unfolding pm sm cn by (rule binary64_third)
  have "\<exists>sd. estimateTempo binary64 sort [P, 2 * P, 4 * P]
      = Estimate (7205759403792795 / 2 ^ 56) sd"
    unfolding estimateTempo_def Let_def d ie option.case mp
    by blast
  then obtain sd where "estimateTempo binary64 sort (beatTimes tenthStore tenthRegion)
      = Estimate (7205759403792795 / 2 ^ 56) sd"
    unfolding tt by blast
  then have tenth: "case tempo (recomputeTempo binary64 sort tenthStore tenthRegion) of
         Tapped (Some (Estimate mp sd)) \<Rightarrow> mp = 7205759403792795 / 2 ^ 56
       | _ \<Rightarrow> False"
    by (simp add: recomputeTempo_def tenthRegion_def)
  show ?thesis
    using run st sec binary64_tenth tt tenth by (simp add: P_def)
qed

text \<open>
  Claim C8, amended, in double arithmetic. Let the beats of a tapped region be at strictly
  ascending multiples \<open>k * P\<close> of a period \<open>P > 0\<close>, with some two consecutive beats exactly
  one period apart, and let the multiples be formed without rounding: \<open>P = m * 2 ^ e\<close> with
  \<open>k * m < 2 ^ 53\<close> for the largest \<open>k\<close>, and \<open>P\<close> and the largest beat time between
  \<open>2 ^ -1000\<close> and \<open>2 ^ 1000\<close>, where \<open>binary64\<close> is the rounding of the doubles. If the sort
  permutes its input, then \<open>recomputeTempo\<close> yields \<open>meanPeriod = P\<close> and \<open>stddev = 0\<close>.
  The beats 0, 0.5, 1, 1.5 are the instance \<open>P = 0.5\<close>.
\<close>

theorem C8_exact_multiples:
  fixes ks :: "nat list"
  assumes P: "0 < P"
    and perm: "\<And>xs. mset (sortJS xs) = mset xs"
    and times: "beatTimes h r = map (\<lambda>k. real k * P) ks"
    and asc: "sorted_wrt (<) ks"
    and unit: "\<exists>i. Suc i < length ks \<and> ks ! Suc i = Suc (ks ! i)"
    and grid: "P = real m * 2 powr real_of_int e"
    and top: "last ks * m < 2 ^ 53"
    and range: "1 / 2 ^ 1000 \<le> P" "real (last ks) * P \<le> 2 ^ 1000"
  shows "tempo (recomputeTempo binary64 sortJS h r) = Tapped (Some (Estimate P 0))"
proof -
  from unit obtain i where i: "Suc i < length ks" "ks ! Suc i = Suc (ks ! i)"
    by blast
  have len: "length (userBeats r) = length ks"
    using arg_cong[OF times, of length] by (simp add: beatTimes_def)
  have two: "2 \<le> length (userBeats r)"
    using i len by simp
  have "estimateTempo binary64 sortJS (beatTimes h r) = Estimate P 0"
    unfolding times using P perm asc unit grid top by (rule estimateTempo_binary64_grid)
  moreover from two have "userBeats r \<noteq> []" "\<not> length (userBeats r) < 2"
    by auto
  ultimately show ?thesis
    by (simp add: recomputeTempo_def)
qed

theorem C8_witness:
  "beatTimes exampleStore exampleRegion = [0, 1 / 2, 1, 3 / 2]
   \<and> tempo (recomputeTempo binary64 sort exampleStore exampleRegion)
       = Tapped (Some (Estimate (1 / 2) 0))"
proof -
  have t: "beatTimes exampleStore exampleRegion = map (\<lambda>k. real k * (1 / 2)) [0, 1, 2, 3]"
    by (simp add: beatTimes_def exampleStore_def exampleRegion_def)
  have u: "\<exists>i. Suc i < length [0, 1, 2, 3 :: nat] \<and> [0, 1, 2, 3 :: nat] ! Suc i = Suc ([0, 1, 2, 3] ! i)"
    by (rule exI[of _ 0]) simp
  have g: "(1 / 2 :: real) = real 1 * 2 powr real_of_int (- 1)"
    by (simp add: powr_minus)
  have "tempo (recomputeTempo binary64 sort exampleStore exampleRegion)
      = Tapped (Some (Estimate (1 / 2) 0))"
    using C8_exact_multiples[of "1 / 2" sort exampleStore exampleRegion "[0, 1, 2, 3]" 1 "- 1",
        OF _ _ t _ u g]
    by simp
  then show ?thesis using t by simp
qed

subsection \<open>The auto-beat loops and the projector\<close>

lemma bindE_Inr_iff:
  "bindE m f = Inr y \<longleftrightarrow> (\<exists>x. m = Inr x \<and> f x = Inr y)"
  by (cases m) (simp_all add: bindE_def)

lemma bindE_Inr [simp]: "bindE (Inr x) f = f x"
  by (simp add: bindE_def)

lemma bindE_Inl [simp]: "bindE (Inl e) f = Inl e"
  by (simp add: bindE_def)

lemma forLoop_returns: "0 < period \<Longrightarrow> forLoop t upTo period = Inr (stepsFrom t upTo period)"
  by (simp add: forLoop_def)

lemma tappedLoops_returns:
  "0 < period \<Longrightarrow> \<exists>bs. tappedLoops period regionEnd ts = Inr bs"
  by (induction period regionEnd ts rule: tappedLoops.induct)
     (auto simp: forLoop_returns)

lemma computeAutoBeats_returns:
  assumes "positiveTempo r"
  shows "\<exists>ts. computeAutoBeats h r = Inr ts"
  using assms tappedLoops_returns
  by (auto simp: computeAutoBeats_def positiveTempo_def forLoop_returns
      split: Tempo.splits option.splits TappedValue.splits)

lemma projectRegion_frame:
  "projectRegion drawStart drawEnd r ts nid = (r', n) \<Longrightarrow> withoutAutoBeats r' = withoutAutoBeats r"
  by (auto simp: projectRegion_def withoutAutoBeats_def Let_def split: prod.splits)

lemma drawRegions_frame:
  "drawRegions h drawStart drawEnd rs nid = Inr (rs', n)
    \<Longrightarrow> map withoutAutoBeats rs' = map withoutAutoBeats rs"
proof (induction rs arbitrary: nid rs' n)
  case Nil
  then show ?case by simp
next
  case (Cons r rs)
  show ?case
  proof (cases "drawStart \<le> endTime r \<and> startTime r < drawEnd")
    case True
    with Cons.prems obtain ts where
      rest: "(case projectRegion drawStart drawEnd r ts nid of (r', nid') \<Rightarrow>
          bindE (drawRegions h drawStart drawEnd rs nid') (\<lambda>(rs', n). Inr (r' # rs', n)))
          = Inr (rs', n)"
      by (auto simp: bindE_Inr_iff)
    obtain r1 n1 where p: "projectRegion drawStart drawEnd r ts nid = (r1, n1)"
      by (cases "projectRegion drawStart drawEnd r ts nid")
    with rest obtain rs1 where
      d: "drawRegions h drawStart drawEnd rs n1 = Inr (rs1, n)"
      and e: "rs' = r1 # rs1"
      by (auto simp: bindE_Inr_iff)
    from Cons.IH[OF d] projectRegion_frame[OF p] e show ?thesis by simp
  next
    case False
    with Cons.prems obtain rs1 where
      d: "drawRegions h drawStart drawEnd rs nid = Inr (rs1, n)"
      and e: "rs' = r\<lparr>autoBeats := []\<rparr> # rs1"
      by (auto simp: bindE_Inr_iff split: prod.splits)
    from Cons.IH[OF d] e show ?thesis by (simp add: withoutAutoBeats_def)
  qed
qed

lemma drawRegions_returns:
  "list_all positiveTempo rs \<Longrightarrow> \<exists>rs' n. drawRegions h drawStart drawEnd rs nid = Inr (rs', n)"
proof (induction rs arbitrary: nid)
  case Nil
  then show ?case by simp
next
  case (Cons r rs)
  then have pr: "positiveTempo r" and prs: "list_all positiveTempo rs" by simp_all
  from computeAutoBeats_returns[OF pr] obtain ts where ts: "computeAutoBeats h r = Inr ts"
    by blast
  show ?case
  proof (cases "drawStart \<le> endTime r \<and> startTime r < drawEnd")
    case True
    obtain r1 n1 where p: "projectRegion drawStart drawEnd r ts nid = (r1, n1)"
      by (cases "projectRegion drawStart drawEnd r ts nid")
    from Cons.IH[OF prs, of n1] obtain rs1 n where
      d: "drawRegions h drawStart drawEnd rs n1 = Inr (rs1, n)" by blast
    have "drawRegions h drawStart drawEnd (r # rs) nid = Inr (r1 # rs1, n)"
      by (simp only: drawRegions.simps True simp_thms if_True ts p d bindE_Inr prod.case)
    then show ?thesis by blast
  next
    case False
    from Cons.IH[OF prs, of nid] obtain rs1 n where
      d: "drawRegions h drawStart drawEnd rs nid = Inr (rs1, n)" by blast
    have "drawRegions h drawStart drawEnd (r # rs) nid = Inr (r\<lparr>autoBeats := []\<rparr> # rs1, n)"
      by (simp only: drawRegions.simps False simp_thms if_False d bindE_Inr prod.case)
    then show ?thesis by blast
  qed
qed

lemma withoutAutoBeats_fields:
  assumes "map withoutAutoBeats rs' = map withoutAutoBeats rs"
  shows "map userBeats rs' = map userBeats rs" "map startTime rs' = map startTime rs"
    "map endTime rs' = map endTime rs" "map index rs' = map index rs"
    "map id_region rs' = map id_region rs" "map tempo rs' = map tempo rs"
    "map offbeatsMarked rs' = map offbeatsMarked rs" "length rs' = length rs"
proof -
  have f: "map (\<lambda>r. g (withoutAutoBeats r)) rs' = map (\<lambda>r. g (withoutAutoBeats r)) rs" for g :: "TempoRegion \<Rightarrow> 'x"
    using arg_cong[OF assms, of "map g"] by (simp add: o_def)
  show "map userBeats rs' = map userBeats rs" using f[of userBeats] by (simp add: withoutAutoBeats_def)
  show "map startTime rs' = map startTime rs" using f[of startTime] by (simp add: withoutAutoBeats_def)
  show "map endTime rs' = map endTime rs" using f[of endTime] by (simp add: withoutAutoBeats_def)
  show "map index rs' = map index rs" using f[of index] by (simp add: withoutAutoBeats_def)
  show "map id_region rs' = map id_region rs" using f[of id_region] by (simp add: withoutAutoBeats_def)
  show "map tempo rs' = map tempo rs" using f[of tempo] by (simp add: withoutAutoBeats_def)
  show "map offbeatsMarked rs' = map offbeatsMarked rs" using f[of offbeatsMarked] by (simp add: withoutAutoBeats_def)
  show "length rs' = length rs" using arg_cong[OF assms, of length] by simp
qed

lemma drawAutopoints_frame:
  assumes "drawAutopoints s = Inr s'"
  shows "s' = s\<lparr>regions := regions s', autoBeatIdCounter := autoBeatIdCounter s'\<rparr>"
    and "map withoutAutoBeats (regions s') = map withoutAutoBeats (regions s)"
  using assms drawRegions_frame
  by (auto simp: drawAutopoints_def bindE_Inr_iff)

lemma drawAutopoints_returns:
  assumes "list_all positiveTempo (regions s)"
  shows "\<exists>s'. drawAutopoints s = Inr s'"
  using drawRegions_returns[OF assms, of "beatStore s" "drawStartOf s" "drawEndOf s" "autoBeatIdCounter s"]
  by (auto simp: drawAutopoints_def)

lemma mapE_returns:
  "(\<And>x. x \<in> set xs \<Longrightarrow> \<exists>y. f x = Inr y) \<Longrightarrow> \<exists>ys. mapE f xs = Inr ys"
proof (induction xs)
  case Nil
  then show ?case by simp
next
  case (Cons x xs)
  then obtain y ys where "f x = Inr y" "mapE f xs = Inr ys"
    by (metis list.set_intros(1,2))
  then show ?case by simp
qed


lemma saveState_frame:
  "saveState s = Inr (j, s') \<Longrightarrow> s' = s\<lparr>saveCalls := saveCalls s @ [j]\<rparr>"
  by (auto simp: saveState_def bindE_Inr_iff)

lemma savedRegion_returns:
  "positiveTempo r \<Longrightarrow> \<exists>sr. savedRegion h r = Inr sr"
  using computeAutoBeats_returns[of r h] by (auto simp: savedRegion_def)

lemma saveState_returns:
  assumes "list_all positiveTempo (regions s)"
  shows "\<exists>j. saveState s = Inr (j, s\<lparr>saveCalls := saveCalls s @ [j]\<rparr>)"
proof -
  have "\<exists>ys. mapE (savedRegion (beatStore s)) (regions s) = Inr ys"
    using assms by (intro mapE_returns savedRegion_returns) (simp add: list_all_iff)
  then show ?thesis by (auto simp: saveState_def)
qed

lemma positiveTempo_withoutAutoBeats:
  assumes "map withoutAutoBeats rs' = map withoutAutoBeats rs" "list_all positiveTempo rs"
  shows "list_all positiveTempo rs'"
proof -
  note f = withoutAutoBeats_fields[OF assms(1)]
  have "tempo (rs' ! i) = tempo (rs ! i)" if "i < length rs" for i
    using arg_cong[OF f(6), of "\<lambda>xs. xs ! i"] that f(8) by simp
  then show ?thesis
    using assms(2) f(8) by (simp add: list_all_length positiveTempo_def)
qed

text \<open>
  Claim C10: in a state where the first beat of region 0 is a tempo-change beat,
  \<open>deletePoint\<close> with that beat's id removes nothing. The state is well formed (the
  region has index 0, the beat carries region index 0 and is registered under its
  id) and every region has a positive period, so that the loops of the projector and of
  \<open>saveState\<close> end. Then the call returns; it is exactly \<open>drawAutopoints\<close> followed
  by \<open>saveState\<close>; and the user beats, start and end times, indices, ids and tempi of
  all regions, the beat store, the reverse index and the selection are unchanged.
\<close>

theorem C10_delete_first_anchor:
  assumes regs: "regions s = r0 # rs"
    and first: "userBeats r0 = a # as"
    and tc: "isTempoChange (beatStore s a)"
    and reg: "userBeatsById s a = Some a"
    and ri: "regionIndex (beatStore s a) = 0"
    and idx: "index r0 = 0"
    and pos: "list_all positiveTempo (regions s)"
  shows "\<exists>s1 j s'. drawAutopoints s = Inr s1 \<and> saveState s1 = Inr (j, s')
      \<and> deletePoint sortJS a s = Inr s'
      \<and> map userBeats (regions s') = map userBeats (regions s)
      \<and> map startTime (regions s') = map startTime (regions s)
      \<and> map endTime (regions s') = map endTime (regions s)
      \<and> map index (regions s') = map index (regions s)
      \<and> map id_region (regions s') = map id_region (regions s)
      \<and> map tempo (regions s') = map tempo (regions s)
      \<and> beatStore s' = beatStore s \<and> userBeatsById s' = userBeatsById s
      \<and> selectedRegionId s' = selectedRegionId s"
proof -
  from drawAutopoints_returns[OF pos] obtain s1 where d: "drawAutopoints s = Inr s1"
    by blast
  note f = drawAutopoints_frame[OF d]
  have pos1: "list_all positiveTempo (regions s1)"
    using f(2) pos by (rule positiveTempo_withoutAutoBeats)
  from saveState_returns[OF pos1] obtain j where
    sv: "saveState s1 = Inr (j, s1\<lparr>saveCalls := saveCalls s1 @ [j]\<rparr>)"
    by blast
  let ?s' = "s1\<lparr>saveCalls := saveCalls s1 @ [j]\<rparr>"
  have orc: "onRegionsChanged sortJS [] True s = Inr ?s'"
    by (simp add: onRegionsChanged_def d sv)
  have del: "deletePoint sortJS a s = Inr ?s'"
    using regs first tc reg ri idx orc
    by (simp add: deletePoint_def finishDelete_def Let_def)
  have fr: "beatStore s1 = beatStore s" "userBeatsById s1 = userBeatsById s"
    "selectedRegionId s1 = selectedRegionId s"
    by (subst f(1), simp)+
  show ?thesis
    using d sv del withoutAutoBeats_fields[OF f(2)] fr by (intro exI[of _ s1] exI[of _ j] exI[of _ ?s']) simp
qed

theorem C10_witness:
  "case calls sort [AddPoint 1 False, AddPoint 3 True, DeletePoint 1] (initialEngine 10) of
     Inr s \<Rightarrow>
       map userBeats (regions s) = [[2]] \<and> isTempoChange (beatStore s 2)
       \<and> (\<exists>s'. deletePoint sort 2 s = Inr s'
            \<and> map userBeats (regions s') = [[2]]
            \<and> map startTime (regions s') = map startTime (regions s)
            \<and> map endTime (regions s') = map endTime (regions s))
   | Inl e \<Rightarrow> False"
proof -
  obtain s where s: "calls sort [AddPoint 1 False, AddPoint 3 True, DeletePoint 1] (initialEngine 10) = Inr s"
    by (simp add: engine_eval)
  then obtain r0 where r0: "regions s = [r0]" "userBeats r0 = [2]" "index r0 = 0" "positiveTempo r0"
    by (auto simp add: engine_eval positiveTempo_def)
  from s have b: "isTempoChange (beatStore s 2)" "userBeatsById s 2 = Some 2"
      "regionIndex (beatStore s 2) = 0"
    by (auto simp add: engine_eval)
  from C10_delete_first_anchor[of s r0 "[]" 2 "[]" sort, OF r0(1) r0(2) b(1) b(2) b(3) r0(3)] r0
  obtain s' where "deletePoint sort 2 s = Inr s'" "map userBeats (regions s') = map userBeats (regions s)"
      "map startTime (regions s') = map startTime (regions s)"
      "map endTime (regions s') = map endTime (regions s)"
    by auto
  with s r0 b show ?thesis by auto
qed

subsection \<open>Where the projector places auto beats\<close>

lemma fold_placeStep:
  assumes "length pts = max R placed" "recycled = min placed R"
  shows "case fold (placeStep drawStart drawEnd R ridx) ts (pts, recycled, placed, nid) of
      (pts', recycled', placed', nid') \<Rightarrow>
        length pts' = max R placed' \<and> recycled' = min placed' R
        \<and> map time_auto (take placed' pts')
            = map time_auto (take placed pts) @ filter (inWindow drawStart drawEnd) ts"
  using assms
proof (induction ts arbitrary: pts recycled placed nid)
  case Nil
  then show ?case by simp
next
  case (Cons t ts)
  show ?case
  proof (cases "inWindow drawStart drawEnd t")
    case False
    then have "placeStep drawStart drawEnd R ridx t (pts, recycled, placed, nid)
        = (pts, recycled, placed, nid)"
      by (auto simp: placeStep_def inWindow_def)
    with Cons.IH[OF Cons.prems] False show ?thesis by simp
  next
    case True
    show ?thesis
    proof (cases "placed < R")
      case lt: True
      let ?pts = "pts[placed := (pts ! placed)\<lparr>time_auto := t\<rparr>]"
      have st: "placeStep drawStart drawEnd R ridx t (pts, recycled, placed, nid)
          = (?pts, recycled + 1, placed + 1, nid)"
        using True lt by (auto simp: placeStep_def inWindow_def)
      have l: "length ?pts = max R (placed + 1)" "recycled + 1 = min (placed + 1) R"
        using Cons.prems lt by auto
      have pl: "placed < length pts"
        using Cons.prems lt by auto
      have tk: "map time_auto (take (placed + 1) ?pts) = map time_auto (take placed pts) @ [t]"
        using pl by (simp add: take_Suc_conv_app_nth)
      from Cons.IH[OF l, of nid] st tk True show ?thesis
        by (auto split: prod.splits)
    next
      case ge: False
      let ?pts = "pts @ [\<lparr>id_auto = nid + 1, regionIndex_auto = ridx, time_auto = t\<rparr>]"
      have st: "placeStep drawStart drawEnd R ridx t (pts, recycled, placed, nid)
          = (?pts, recycled, placed + 1, nid + 1)"
        using True ge by (auto simp: placeStep_def inWindow_def)
      have l: "length ?pts = max R (placed + 1)" "recycled = min (placed + 1) R"
        using Cons.prems ge by auto
      have pl: "length pts = placed"
        using Cons.prems ge by auto
      have tk: "map time_auto (take (placed + 1) ?pts) = map time_auto (take placed pts) @ [t]"
        using pl by simp
      from Cons.IH[OF l, of "nid + 1"] st tk True show ?thesis
        by (auto split: prod.splits)
    qed
  qed
qed

lemma projectRegion_times:
  "map time_auto (autoBeats (fst (projectRegion drawStart drawEnd r ts nid)))
    = filter (inWindow drawStart drawEnd) ts"
proof -
  obtain pts' recycled' placed' nid' where
    f: "fold (placeStep drawStart drawEnd (length (autoBeats r)) (index r)) ts (autoBeats r, 0, 0, nid)
        = (pts', recycled', placed', nid')"
    by (metis prod_cases4)
  from fold_placeStep[where pts = "autoBeats r" and R = "length (autoBeats r)" and placed = 0
      and recycled = 0 and drawStart = drawStart and drawEnd = drawEnd and ridx = "index r"
      and ts = ts and nid = nid] f
  have i: "length pts' = max (length (autoBeats r)) placed'" "recycled' = min placed' (length (autoBeats r))"
    "map time_auto (take placed' pts') = filter (inWindow drawStart drawEnd) ts"
    by auto
  show ?thesis
  proof (cases "recycled' < length (autoBeats r)")
    case True
    with i have "recycled' = placed'" by auto
    with True i f show ?thesis by (simp add: projectRegion_def Let_def)
  next
    case False
    with i have "length pts' = placed'" by auto
    with False i f show ?thesis by (simp add: projectRegion_def Let_def)
  qed
qed

lemma stepsFrom_bounds:
  "t' \<in> set (stepsFrom t upTo period) \<Longrightarrow> t \<le> t' \<and> t' < upTo"
proof (induction t upTo period rule: stepsFrom.induct)
  case (1 t upTo period)
  show ?case
  proof (cases "t < upTo \<and> 0 < period")
    case True
    with "1.prems" have "t' = t \<or> t' \<in> set (stepsFrom (t + period) upTo period)"
      by (subst (asm) stepsFrom.simps) auto
    with True "1.IH" show ?thesis by auto
  next
    case False
    with "1.prems" show ?thesis by (subst (asm) stepsFrom.simps) auto
  qed
qed

lemma forLoop_bounds:
  "forLoop t upTo period = Inr bs \<Longrightarrow> t' \<in> set bs \<Longrightarrow> t \<le> t' \<and> t' < upTo"
  using stepsFrom_bounds by (auto simp: forLoop_def split: if_splits)

lemma forLoop_strict:
  assumes "forLoop (t + period) upTo period = Inr bs" "t' \<in> set bs"
  shows "t < t'"
proof -
  from assms have m: "t' \<in> set (stepsFrom (t + period) upTo period)"
    by (auto simp: forLoop_def split: if_splits)
  then have "t + period < upTo \<and> 0 < period"
    by (subst (asm) stepsFrom.simps) (auto split: if_splits)
  with stepsFrom_bounds[OF m] show ?thesis by simp
qed

lemma tappedLoops_bounds:
  assumes "tappedLoops period regionEnd ts = Inr bs" "t' \<in> set bs"
  shows "(\<exists>bt\<in>set ts. bt < t') \<and> (t' < regionEnd \<or> (\<exists>bt\<in>set ts. t' < bt))"
  using assms
proof (induction period regionEnd ts arbitrary: bs rule: tappedLoops.induct)
  case (1 period regionEnd)
  then show ?case by simp
next
  case (2 period regionEnd t)
  then show ?case
    using forLoop_bounds[of "t + period" regionEnd period bs t']
      forLoop_strict[of t period regionEnd bs t'] by auto
next
  case (3 period regionEnd t u ts)
  from "3.prems"(1) obtain b1 b2 where
    b: "forLoop (t + period) u period = Inr b1" "tappedLoops period regionEnd (u # ts) = Inr b2"
      "bs = b1 @ b2"
    by (auto simp: bindE_Inr_iff)
  from "3.prems"(2) b(3) consider "t' \<in> set b1" | "t' \<in> set b2" by auto
  then show ?case
  proof cases
    case 1
    with forLoop_bounds[OF b(1)] forLoop_strict[OF b(1)] show ?thesis by auto
  next
    case 2
    from "3.IH"[OF b(2) 2] show ?thesis by auto
  qed
qed

lemma computeAutoBeats_bounds:
  assumes c: "computeAutoBeats h r = Inr ts" and t: "t \<in> set ts"
    and within: "\<And>v. tempo r = Tapped v \<Longrightarrow>
      \<forall>a\<in>set (userBeats r). startTime r \<le> time (h a) \<and> time (h a) \<le> endTime r"
  shows "autoLowerBound r \<le> t \<and> t < endTime r"
proof (cases "tempo r")
  case (Fixed b ph)
  with c t forLoop_bounds[of "startTime r + ph" "endTime r" "60 / b" ts t]
  show ?thesis
    by (auto simp: computeAutoBeats_def autoLowerBound_def split: if_splits)
next
  case (Tapped v)
  with c t obtain period sd where
    v: "v = Some (Estimate period sd)"
    and l: "tappedLoops period (endTime r) (beatTimes h r) = Inr ts"
    by (auto simp: computeAutoBeats_def split: option.splits TappedValue.splits)
  from tappedLoops_bounds[OF l t] within[OF Tapped] Tapped show ?thesis
    by (fastforce simp: beatTimes_def autoLowerBound_def)
qed

lemma drawRegions_autoBeats:
  assumes "drawRegions h drawStart drawEnd rs nid = Inr (rs', n)"
    and "i < length rs" and "b \<in> set (autoBeats (rs' ! i))"
  shows "\<exists>ts. computeAutoBeats h (rs ! i) = Inr ts \<and> time_auto b \<in> set ts
      \<and> inWindow drawStart drawEnd (time_auto b)"
  using assms
proof (induction rs arbitrary: nid rs' n i)
  case Nil
  then show ?case by simp
next
  case (Cons r rs)
  show ?case
  proof (cases "drawStart \<le> endTime r \<and> startTime r < drawEnd")
    case True
    with Cons.prems(1) obtain ts where
      ts: "computeAutoBeats h r = Inr ts"
      and rest: "(case projectRegion drawStart drawEnd r ts nid of (r', nid') \<Rightarrow>
          bindE (drawRegions h drawStart drawEnd rs nid') (\<lambda>(rs', n). Inr (r' # rs', n)))
          = Inr (rs', n)"
      by (auto simp: bindE_Inr_iff)
    obtain r1 n1 where p: "projectRegion drawStart drawEnd r ts nid = (r1, n1)"
      by (cases "projectRegion drawStart drawEnd r ts nid")
    with rest obtain rs1 where
      d: "drawRegions h drawStart drawEnd rs n1 = Inr (rs1, n)"
      and e: "rs' = r1 # rs1"
      by (auto simp: bindE_Inr_iff)
    show ?thesis
    proof (cases i)
      case 0
      with Cons.prems(3) e have "time_auto b \<in> set (map time_auto (autoBeats r1))"
        by simp
      also have "map time_auto (autoBeats r1) = filter (inWindow drawStart drawEnd) ts"
        using projectRegion_times[of drawStart drawEnd r ts nid] p by simp
      finally show ?thesis using 0 ts by auto
    next
      case (Suc k)
      with Cons.prems e Cons.IH[OF d, of k] show ?thesis by simp
    qed
  next
    case False
    with Cons.prems(1) obtain rs1 where
      d: "drawRegions h drawStart drawEnd rs nid = Inr (rs1, n)"
      and e: "rs' = r\<lparr>autoBeats := []\<rparr> # rs1"
      by (auto simp: bindE_Inr_iff split: prod.splits)
    show ?thesis
    proof (cases i)
      case 0
      with Cons.prems(3) e show ?thesis by simp
    next
      case (Suc k)
      with Cons.prems e Cons.IH[OF d, of k] show ?thesis by simp
    qed
  qed
qed

lemma drawAutopoints_bounds:
  assumes d: "drawAutopoints s = Inr s'"
    and i: "i < length (regions s)"
    and b: "b \<in> set (autoBeats (regions s' ! i))"
    and within: "\<And>v. tempo (regions s ! i) = Tapped v \<Longrightarrow>
      \<forall>a\<in>set (userBeats (regions s ! i)).
        startTime (regions s ! i) \<le> time (beatStore s a)
        \<and> time (beatStore s a) \<le> endTime (regions s ! i)"
  shows "startTime_view (viewport s) - drawBuffer \<le> time_auto b
    \<and> time_auto b < endTime_view (viewport s) + drawBuffer
    \<and> 0 \<le> time_auto b \<and> time_auto b < duration s
    \<and> autoLowerBound (regions s ! i) \<le> time_auto b
    \<and> time_auto b < endTime (regions s ! i)"
proof -
  from d obtain rs' n where
    dr: "drawRegions (beatStore s) (drawStartOf s) (drawEndOf s) (regions s) (autoBeatIdCounter s)
        = Inr (rs', n)"
    and s': "regions s' = rs'"
    by (auto simp: drawAutopoints_def bindE_Inr_iff)
  from drawRegions_autoBeats[OF dr i] b s' obtain ts where
    ts: "computeAutoBeats (beatStore s) (regions s ! i) = Inr ts" "time_auto b \<in> set ts"
    and w: "inWindow (drawStartOf s) (drawEndOf s) (time_auto b)"
    by auto
  from computeAutoBeats_bounds[OF ts within]
  have rb: "autoLowerBound (regions s ! i) \<le> time_auto b \<and> time_auto b < endTime (regions s ! i)"
    by simp
  from w have "startTime_view (viewport s) - drawBuffer \<le> time_auto b
    \<and> time_auto b < endTime_view (viewport s) + drawBuffer
    \<and> 0 \<le> time_auto b \<and> time_auto b < duration s"
    by (auto simp: inWindow_def drawStartOf_def drawEndOf_def)
  with rb show ?thesis by simp
qed

text \<open>
  Claim C9 as stated (no auto beat outside the region's \<open>[startTime, endTime)\<close>) fails on
  the code for a fixed region whose phase offset is negative: the grid starts at
  \<open>startTime + phaseOffset\<close>. A saved fixed region of 6 bpm with beats at 10 and 19 loads
  with phase offset \<open>-1\<close>; after \<open>setViewport({startTime: 5, endTime: 20})\<close> it holds auto
  beats at 9 and 19, and 9 is before its start time 10.
\<close>

theorem C9_counterexample:
  "case Annotate sort 25 (Some [\<lparr>offbeatsMarked_saved = False, tempo_saved = SavedFixed 6,
            markedBeats = [10, 19], inferredBeats = []\<rparr>]) of
     Inr s \<Rightarrow>
       (case setViewport \<lparr>startTime_view = 5, endTime_view = 20\<rparr> s of
          Inr s' \<Rightarrow>
            map startTime (regions s') = [10] \<and> map endTime (regions s') = [25]
            \<and> map tempo (regions s') = [Fixed 6 (- 1)]
            \<and> map (\<lambda>r. map time_auto (autoBeats r)) (regions s') = [[9, 19]]
        | Inl e \<Rightarrow> False)
   | Inl e \<Rightarrow> False"
  by (simp add: engine_eval)

text \<open>
  Claim C9, amended. \<open>setViewport\<close> with the current viewport returns the state as it is.
  After \<open>drawAutopoints\<close>, every auto beat of every region lies in
  \<open>[max(vs - 30, 0), min(ve + 30, duration))\<close>, hence within 30 seconds of the viewport,
  and before the region's end time; it is not before \<open>startTime + phaseOffset\<close> in a fixed
  region and not before \<open>startTime\<close> in a tapped region, provided the user beats of a
  tapped region lie between its start and end times.
\<close>

theorem C9_projection_bounds:
  "(startTime_view v = startTime_view (viewport s) \<and> endTime_view v = endTime_view (viewport s)
      \<longrightarrow> setViewport v s = Inr s)
   \<and> (drawAutopoints s = Inr s' \<and> i < length (regions s)
       \<and> b \<in> set (autoBeats (regions s' ! i))
       \<and> (\<forall>x. tempo (regions s ! i) = Tapped x \<longrightarrow>
            (\<forall>a\<in>set (userBeats (regions s ! i)).
               startTime (regions s ! i) \<le> time (beatStore s a)
               \<and> time (beatStore s a) \<le> endTime (regions s ! i)))
      \<longrightarrow> startTime_view (viewport s) - drawBuffer \<le> time_auto b
        \<and> time_auto b < endTime_view (viewport s) + drawBuffer
        \<and> 0 \<le> time_auto b \<and> time_auto b < duration s
        \<and> autoLowerBound (regions s ! i) \<le> time_auto b
        \<and> time_auto b < endTime (regions s ! i))
   \<and> (list_all positiveTempo (regions s) \<longrightarrow> (\<exists>s1. drawAutopoints s = Inr s1))"
proof (intro conjI impI)
  assume "startTime_view v = startTime_view (viewport s) \<and> endTime_view v = endTime_view (viewport s)"
  then show "setViewport v s = Inr s"
    by (simp add: setViewport_def)
next
  assume "list_all positiveTempo (regions s)"
  then show "\<exists>s1. drawAutopoints s = Inr s1"
    by (rule drawAutopoints_returns)
next
  assume a: "drawAutopoints s = Inr s' \<and> i < length (regions s)
       \<and> b \<in> set (autoBeats (regions s' ! i))
       \<and> (\<forall>x. tempo (regions s ! i) = Tapped x \<longrightarrow>
            (\<forall>a\<in>set (userBeats (regions s ! i)).
               startTime (regions s ! i) \<le> time (beatStore s a)
               \<and> time (beatStore s a) \<le> endTime (regions s ! i)))"
  then have "startTime_view (viewport s) - drawBuffer \<le> time_auto b
      \<and> time_auto b < endTime_view (viewport s) + drawBuffer
      \<and> 0 \<le> time_auto b \<and> time_auto b < duration s
      \<and> autoLowerBound (regions s ! i) \<le> time_auto b
      \<and> time_auto b < endTime (regions s ! i)"
    by (intro drawAutopoints_bounds) auto
  then show "startTime_view (viewport s) - drawBuffer \<le> time_auto b"
    "time_auto b < endTime_view (viewport s) + drawBuffer"
    "0 \<le> time_auto b" "time_auto b < duration s"
    "autoLowerBound (regions s ! i) \<le> time_auto b"
    "time_auto b < endTime (regions s ! i)"
    by simp_all
qed

theorem C9_witness:
  "case calls sort [AddPoint 1 False, AddPoint 2 False] (initialEngine 5) of
     Inr s \<Rightarrow>
       (case drawAutopoints s of
          Inr s' \<Rightarrow>
            map time_auto (autoBeats (regions s' ! 0)) = [3, 4]
            \<and> (let b = autoBeats (regions s' ! 0) ! 0 in
                 startTime_view (viewport s) - drawBuffer \<le> time_auto b
                 \<and> time_auto b < endTime_view (viewport s) + drawBuffer
                 \<and> autoLowerBound (regions s ! 0) \<le> time_auto b
                 \<and> time_auto b < endTime (regions s ! 0))
            \<and> setViewport (viewport s) s = Inr s
        | Inl e \<Rightarrow> False)
   | Inl e \<Rightarrow> False"
proof -
  obtain s where s: "calls sort [AddPoint 1 False, AddPoint 2 False] (initialEngine 5) = Inr s"
    by (simp add: engine_eval)
  then obtain s' where d: "drawAutopoints s = Inr s'"
    and a: "map time_auto (autoBeats (regions s' ! 0)) = [3, 4]"
    by (auto simp add: engine_eval)
  from s have h: "0 < length (regions s)"
    "\<And>v. tempo (regions s ! 0) = Tapped v \<Longrightarrow>
      \<forall>a\<in>set (userBeats (regions s ! 0)).
        startTime (regions s ! 0) \<le> time (beatStore s a)
        \<and> time (beatStore s a) \<le> endTime (regions s ! 0)"
    by (auto simp add: engine_eval)
  from a have b: "autoBeats (regions s' ! 0) ! 0 \<in> set (autoBeats (regions s' ! 0))"
    by (intro nth_mem) (metis length_map length_Cons zero_less_Suc)
  from C9_projection_bounds[of "viewport s" s s' 0 "autoBeats (regions s' ! 0) ! 0"] d h b
  have "startTime_view (viewport s) - drawBuffer \<le> time_auto (autoBeats (regions s' ! 0) ! 0)
      \<and> time_auto (autoBeats (regions s' ! 0) ! 0) < endTime_view (viewport s) + drawBuffer
      \<and> autoLowerBound (regions s ! 0) \<le> time_auto (autoBeats (regions s' ! 0) ! 0)
      \<and> time_auto (autoBeats (regions s' ! 0) ! 0) < endTime (regions s ! 0)
      \<and> setViewport (viewport s) s = Inr s"
    by blast
  with s d a show ?thesis
    by (simp add: Let_def)
qed

subsection \<open>What a recompute pass leaves unchanged, and when it returns\<close>

lemma sum_list_bounds:
  assumes "\<And>x. x \<in> set xs \<Longrightarrow> lo \<le> x \<and> x < hi" "xs \<noteq> []"
  shows "real (length xs) * lo \<le> sum_list xs \<and> sum_list xs < real (length xs) * hi"
  using assms
proof (induction xs)
  case Nil
  then show ?case by simp
next
  case (Cons x xs)
  show ?case
  proof (cases "xs = []")
    case True
    with Cons.prems(1)[of x] show ?thesis by simp
  next
    case False
    with Cons.IH Cons.prems(1) have
      "real (length xs) * lo \<le> sum_list xs \<and> sum_list xs < real (length xs) * hi"
      by simp
    with Cons.prems(1)[of x] show ?thesis
      by (simp add: algebra_simps)
  qed
qed

lemma fold_plus_sum_list:
  "fold (\<lambda>x sum. sum + x) xs a = a + sum_list xs" for a :: real
  by (induction xs arbitrary: a) simp_all

lemma sumLoop_unrounded: "sumLoop unrounded xs = sum_list xs"
proof -
  have "(\<lambda>x sum. unrounded (sum + x)) = (\<lambda>x sum. sum + x)"
    by (simp add: unrounded_def)
  then show ?thesis
    by (simp add: sumLoop_def fold_plus_sum_list)
qed

lemma sum_list_of_int:
  "sum_list (map (\<lambda>d. real_of_int (f d)) ds) = real_of_int (sum_list (map f ds))"
  by (induction ds) simp_all

lemma dists_unrounded:
  "dists unrounded ts = map (\<lambda>i. ts ! i - ts ! (i - 1)) [1 ..< length ts]"
  by (simp add: dists_def unrounded_def)

lemma initialEstimate_unrounded:
  "initialEstimate unrounded sortJS ds =
    (case ds of [] \<Rightarrow> None
     | d # rest \<Rightarrow>
        let minDist = fold min rest d;
            candidates = sortJS (filter (\<lambda>d. d < minDist * (12 / 10)) ds);
            candidates' =
              (if 5 \<le> length candidates
               then let discard = nat \<lceil>real (length candidates) * (2 / 10)\<rceil>
                    in take (length candidates - discard - discard) (drop discard candidates)
               else candidates)
        in if length candidates' = 0 then None
           else Some (sum_list candidates' / real (length candidates')))"
  unfolding initialEstimate_def sumLoop_unrounded unrounded_def ..

lemma periodsOf_unrounded: "periodsOf unrounded est d = round (d / est)"
  by (simp add: periodsOf_def unrounded_def)

lemma estimateTempo_unrounded:
  "estimateTempo unrounded sortJS ts =
    (let ds = dists unrounded ts in
     case initialEstimate unrounded sortJS ds of
       None \<Rightarrow> EstimateNaN
     | Some est \<Rightarrow>
        let meanPeriod = sum_list ds / real_of_int (sum_list (map (periodsOf unrounded est) ds));
            meanBpm = 60 / meanPeriod;
            variance =
              sum_list (map (\<lambda>d. (meanBpm
                  - 60 / (d / real_of_int (periodsOf unrounded est d)))\<^sup>2) ds)
                / real (length ds)
        in Estimate meanPeriod (sqrt variance))"
  unfolding estimateTempo_def sumLoop_unrounded sum_list_of_int unrounded_def ..

lemma initialEstimate_range:
  assumes perm: "\<And>xs. mset (sortJS xs) = mset xs"
    and ie: "initialEstimate unrounded sortJS ds = Some est"
  shows "\<exists>m. 0 < m \<and> m \<le> est \<and> est < m * (12 / 10) \<and> (\<forall>d\<in>set ds. m \<le> d) \<and> ds \<noteq> []"
proof -
  from ie obtain d rest where ds: "ds = d # rest"
    by (cases ds) (auto simp: initialEstimate_unrounded)
  define m where "m = fold min rest d"
  have mMin: "m = Min (set ds)"
    unfolding m_def ds by (rule Min.set_eq_fold[symmetric])
  have lower: "m \<le> x" if "x \<in> set ds" for x
    using that unfolding mMin by simp
  define cand where "cand = filter (\<lambda>x. x < m * (12 / 10)) ds"
  define srt where "srt = sortJS cand"
  have setc: "set srt = set cand"
    unfolding srt_def using perm[of cand] by (metis set_mset_mset)
  define c' where "c' = (if 5 \<le> length srt
               then let discard = nat \<lceil>real (length srt) * (2 / 10)\<rceil>
                    in take (length srt - discard - discard) (drop discard srt)
               else srt)"
  have "set c' \<subseteq> set srt"
  proof (cases "5 \<le> length srt")
    case True
    then have "c' = take (length srt - nat \<lceil>real (length srt) * (2 / 10)\<rceil>
        - nat \<lceil>real (length srt) * (2 / 10)\<rceil>) (drop (nat \<lceil>real (length srt) * (2 / 10)\<rceil>) srt)"
      by (simp add: c'_def Let_def)
    then show ?thesis
      by (metis set_take_subset set_drop_subset subset_trans)
  next
    case False
    then show ?thesis by (simp add: c'_def)
  qed
  with setc have c'sub: "set c' \<subseteq> set cand"
    by simp
  have "initialEstimate unrounded sortJS ds =
      (if length c' = 0 then None else Some (sum_list c' / real (length c')))"
    by (simp only: initialEstimate_unrounded ds list.case Let_def c'_def srt_def cand_def m_def)
  with ie have ne: "c' \<noteq> []" and est: "est = sum_list c' / real (length c')"
    by (auto split: if_splits)
  have rng: "m \<le> x \<and> x < m * (12 / 10)" if "x \<in> set c'" for x
    using that c'sub lower by (auto simp: cand_def)
  from ne obtain x where "x \<in> set c'" by (cases c') auto
  from rng[OF this] have mpos: "0 < m" by simp
  from sum_list_bounds[of c' m "m * (12 / 10)", OF rng ne]
  have "real (length c') * m \<le> sum_list c'" "sum_list c' < real (length c') * (m * (12 / 10))"
    by simp_all
  moreover have "0 < real (length c')" using ne by simp
  ultimately have "m \<le> est" "est < m * (12 / 10)"
    unfolding est by (simp_all add: field_simps)
  with mpos lower ds show ?thesis by (intro exI[of _ m]) auto
qed

lemma periodsOf_ge_1:
  assumes "0 < m" "m \<le> est" "est < m * (12 / 10)" "m \<le> d"
  shows "1 \<le> periodsOf unrounded est d"
proof -
  have e: "0 < est" using assms by simp
  have "est * (10 / 12) < m" using assms by (simp add: field_simps)
  with assms have "est * (10 / 12) < d" by simp
  with e have "10 / 12 < d / est" by (simp add: pos_less_divide_eq)
  then have "1 \<le> d / est + 1 / 2" by linarith
  then have "1 \<le> \<lfloor>d / est + 1 / 2\<rfloor>" by linarith
  then show ?thesis by (simp add: periodsOf_unrounded round_def)
qed

lemma sum_list_ge_length:
  "(\<And>x. x \<in> set xs \<Longrightarrow> (1::int) \<le> x) \<Longrightarrow> int (length xs) \<le> sum_list xs"
  by (induction xs) (auto, force)

lemma estimateTempo_positive:
  assumes perm: "\<And>xs. mset (sortJS xs) = mset xs"
  shows "estimateTempo unrounded sortJS ts = EstimateNaN
    \<or> (\<exists>m sd. estimateTempo unrounded sortJS ts = Estimate m sd \<and> 0 < m)"
proof (cases "initialEstimate unrounded sortJS (dists unrounded ts)")
  case None
  then show ?thesis by (simp add: estimateTempo_unrounded)
next
  case (Some est)
  from initialEstimate_range[OF perm Some] obtain m where
    m: "0 < m" "m \<le> est" "est < m * (12 / 10)" "\<forall>d\<in>set (dists unrounded ts). m \<le> d" "dists unrounded ts \<noteq> []"
    by blast
  have p1: "1 \<le> x" if "x \<in> set (map (periodsOf unrounded est) (dists unrounded ts))" for x
    using that m periodsOf_ge_1[OF m(1,2,3)] by auto
  from sum_list_ge_length[of "map (periodsOf unrounded est) (dists unrounded ts)", OF p1] m(5)
  have cnt: "0 < sum_list (map (periodsOf unrounded est) (dists unrounded ts))"
    by (cases "dists unrounded ts") auto
  have "m \<le> x \<and> x < x + 1" if "x \<in> set (dists unrounded ts)" for x
    using that m by simp
  have "real (length (dists unrounded ts)) * m \<le> sum_list (dists unrounded ts)"
  proof -
    have "sum_list (map (\<lambda>_. m) (dists unrounded ts)) \<le> sum_list (map (\<lambda>d. d) (dists unrounded ts))"
      using m(4) by (intro sum_list_mono) auto
    then show ?thesis by (simp add: sum_list_triv)
  qed
  moreover have "0 < real (length (dists unrounded ts)) * m"
    using m by simp
  ultimately have sm: "0 < sum_list (dists unrounded ts)" by linarith
  have "0 < sum_list (dists unrounded ts) / real_of_int (sum_list (map (periodsOf unrounded est) (dists unrounded ts)))"
    using sm cnt by simp
  then show ?thesis
    by (simp add: estimateTempo_unrounded Some Let_def)
qed

lemma sameStructure_refl [simp]: "sameStructure s s"
  by (simp add: sameStructure_def)

lemma sameStructure_trans:
  "sameStructure s s1 \<Longrightarrow> sameStructure s1 s2 \<Longrightarrow> sameStructure s s2"
  by (simp add: sameStructure_def)

lemma sameStructure_core:
  "sameStructure s s' \<Longrightarrow> beatCore (beatStore s' a) = beatCore (beatStore s a)"
  by (auto simp: sameStructure_def dest: fun_cong[where x = a])

lemma sameStructure_time:
  "sameStructure s s' \<Longrightarrow> time (beatStore s' a) = time (beatStore s a)"
  using sameStructure_core[of s s' a] by (simp add: beatCore_def)


lemma fold_localBeatPeriod_core:
  "beatCore (fold (\<lambda>x h'. h'(k x := (h' (k x))\<lparr>localBeatPeriod := g x h'\<rparr>)) xs h a)
    = beatCore (h a)"
  by (induction xs arbitrary: h) (simp_all add: beatCore_def)

lemma setTimesBetweenBeats_core:
  "beatCore (setTimesBetweenBeats v ubs h a) = beatCore (h a)"
proof (cases v)
  case None
  then show ?thesis
    using fold_localBeatPeriod_core[of "\<lambda>x. x" "\<lambda>x h'. None" ubs h a]
    by (simp add: setTimesBetweenBeats_def)
next
  case (Some val)
  then show ?thesis
    using fold_localBeatPeriod_core[of "\<lambda>i. ubs ! i"
        "\<lambda>i h'. if i = 0 then None
                 else localPeriod val (time (h' (ubs ! i)) - time (h' (ubs ! (i - 1))))"
        "[0 ..< length ubs]" h a]
    by (simp add: setTimesBetweenBeats_def)
qed

lemma recomputeTempo_structure:
  "tempo r = Tapped v \<Longrightarrow> structureOf (recomputeTempo fl sortJS h r) = structureOf r"
  by (simp add: recomputeTempo_def structureOf_def savedTempo_def)

lemma recomputeTempo_userBeats [simp]:
  "userBeats (recomputeTempo fl sortJS h r) = userBeats r"
  by (simp add: recomputeTempo_def)

lemma recomputePhaseOffset_structure:
  "recomputePhaseOffset h r = Inr r' \<Longrightarrow> structureOf r' = structureOf r"
  by (auto simp: recomputePhaseOffset_def structureOf_def savedTempo_def Let_def
      split: Tempo.splits if_splits)

lemma map_update_same:
  "f x = f (xs ! i) \<Longrightarrow> map f (xs[i := x]) = map f xs"
  by (cases "i < length xs") (simp_all add: map_update list_update_same_conv list_update_beyond)

lemma recomputeAt_frame:
  assumes "recomputeAt sortJS i s = Inr s'"
  shows "sameStructure s s'"
proof (cases "length (regions s) \<le> i")
  case True
  with assms show ?thesis by (simp add: recomputeAt_def)
next
  case False
  show ?thesis
  proof (cases "tempo (regions s ! i)")
    case (Tapped v)
    with assms False have s': "s' = s\<lparr>regions := (regions s)[i := recomputeTempo unrounded sortJS (beatStore s) (regions s ! i)],
        beatStore := setTimesBetweenBeats
          (case tempo (recomputeTempo unrounded sortJS (beatStore s) (regions s ! i)) of Tapped v' \<Rightarrow> v' | Fixed b ph \<Rightarrow> None)
          (userBeats (recomputeTempo unrounded sortJS (beatStore s) (regions s ! i))) (beatStore s)\<rparr>"
      by (simp add: recomputeAt_def Let_def)
    show ?thesis
      unfolding sameStructure_def s'
      using recomputeTempo_structure[OF Tapped, of unrounded sortJS "beatStore s"]
      by (auto simp: map_update_same setTimesBetweenBeats_core)
  next
    case (Fixed b ph)
    with assms False obtain r' where
      r': "recomputePhaseOffset (beatStore s) (regions s ! i) = Inr r'"
      and s': "s' = s\<lparr>regions := (regions s)[i := r']\<rparr>"
      by (auto simp: recomputeAt_def Let_def bindE_Inr_iff)
    show ?thesis
      unfolding sameStructure_def s'
      using recomputePhaseOffset_structure[OF r']
      by (auto simp: map_update_same)
  qed
qed

lemma positiveTempo_update:
  assumes "list_all positiveTempo rs" "positiveTempo r"
  shows "list_all positiveTempo (rs[i := r])"
  using assms by (auto simp: list_all_iff dest!: subsetD[OF set_update_subset_insert])

lemma recomputeTempo_positive:
  assumes perm: "\<And>xs. mset (sortJS xs) = mset xs" and "positiveTempo r"
  shows "positiveTempo (recomputeTempo unrounded sortJS h r)"
  using assms(2) estimateTempo_positive[OF perm, of "beatTimes h r"]
  by (auto simp: recomputeTempo_def positiveTempo_def)

lemma recomputePhaseOffset_returns:
  assumes "tempo r = Fixed b ph" "0 < b"
  shows "\<exists>r'. recomputePhaseOffset h r = Inr r' \<and> positiveTempo r'"
proof -
  consider "length (userBeats r) = 0" | "length (userBeats r) = 1" | "2 \<le> length (userBeats r)"
    by linarith
  then show ?thesis
  proof cases
    case 1
    with assms show ?thesis by (simp add: recomputePhaseOffset_def positiveTempo_def)
  next
    case 2
    with assms show ?thesis by (simp add: recomputePhaseOffset_def positiveTempo_def)
  next
    case 3
    then have "\<not> length (userBeats r) < 2" "length (userBeats r) \<noteq> 0" by auto
    with assms show ?thesis by (simp add: recomputePhaseOffset_def positiveTempo_def Let_def)
  qed
qed

lemma recomputeAt_returns:
  assumes perm: "\<And>xs. mset (sortJS xs) = mset xs"
    and pos: "list_all positiveTempo (regions s)"
  shows "\<exists>s'. recomputeAt sortJS i s = Inr s' \<and> list_all positiveTempo (regions s')"
proof (cases "length (regions s) \<le> i")
  case True
  with pos show ?thesis by (simp add: recomputeAt_def)
next
  case False
  then have pr: "positiveTempo (regions s ! i)"
    using pos by (simp add: list_all_length)
  show ?thesis
  proof (cases "tempo (regions s ! i)")
    case (Tapped v)
    with False pos recomputeTempo_positive[OF perm pr, of "beatStore s"] show ?thesis
      by (simp add: recomputeAt_def Let_def positiveTempo_update)
  next
    case (Fixed b ph)
    with pr have b: "0 < b" by (simp add: positiveTempo_def)
    from recomputePhaseOffset_returns[OF Fixed b, of "beatStore s"] obtain r' where
      r': "recomputePhaseOffset (beatStore s) (regions s ! i) = Inr r'" "positiveTempo r'"
      by blast
    with Fixed False pos show ?thesis
      by (simp add: recomputeAt_def Let_def positiveTempo_update)
  qed
qed

lemma foldE_recomputeAt_frame:
  "foldE (recomputeAt sortJS) is s = Inr s' \<Longrightarrow> sameStructure s s'"
proof (induction "is" arbitrary: s)
  case Nil
  then show ?case by simp
next
  case (Cons i "is")
  then obtain s1 where "recomputeAt sortJS i s = Inr s1" "foldE (recomputeAt sortJS) is s1 = Inr s'"
    by (auto simp: bindE_Inr_iff)
  with Cons.IH recomputeAt_frame show ?case
    by (blast intro: sameStructure_trans)
qed

lemma foldE_recomputeAt_returns:
  assumes perm: "\<And>xs. mset (sortJS xs) = mset xs"
  shows "list_all positiveTempo (regions s)
    \<Longrightarrow> \<exists>s'. foldE (recomputeAt sortJS) is s = Inr s' \<and> list_all positiveTempo (regions s')"
proof (induction "is" arbitrary: s)
  case Nil
  then show ?case by simp
next
  case (Cons i "is")
  from recomputeAt_returns[OF perm Cons.prems, of i] obtain s1 where
    s1: "recomputeAt sortJS i s = Inr s1" "list_all positiveTempo (regions s1)" by blast
  from Cons.IH[OF s1(2)] s1(1) show ?case by simp
qed

lemma withoutAutoBeats_structure:
  assumes "map withoutAutoBeats rs' = map withoutAutoBeats rs"
  shows "map structureOf rs' = map structureOf rs"
proof -
  have e: "structureOf (withoutAutoBeats r) = structureOf r" for r
    by (simp add: structureOf_def withoutAutoBeats_def)
  have "map (\<lambda>r. structureOf (withoutAutoBeats r)) rs' = map (\<lambda>r. structureOf (withoutAutoBeats r)) rs"
    using arg_cong[OF assms, of "map structureOf"] by (simp add: o_def)
  then show ?thesis by (simp only: e)
qed

lemma drawAutopoints_sameStructure:
  assumes "drawAutopoints s = Inr s'"
  shows "sameStructure s s'"
proof -
  note f = drawAutopoints_frame[OF assms]
  have "map structureOf (regions s') = map structureOf (regions s)"
    using f(2) by (rule withoutAutoBeats_structure)
  moreover have "beatStore s' = beatStore s" "userBeatsById s' = userBeatsById s"
    "selectedRegionId s' = selectedRegionId s" "duration s' = duration s"
    "viewport s' = viewport s" "regionIdCounter s' = regionIdCounter s"
    "userBeatIdCounter s' = userBeatIdCounter s"
    by (subst f(1), simp)+
  ultimately show ?thesis by (simp add: sameStructure_def)
qed

lemma saveState_sameStructure:
  "saveState s = Inr (j, s') \<Longrightarrow> sameStructure s s'"
  by (auto simp: sameStructure_def dest: saveState_frame)

lemma onRegionsChanged_frame:
  assumes "onRegionsChanged sortJS changed doSave s = Inr s'"
  shows "sameStructure s s'"
proof -
  from assms obtain s1 s2 where
    a: "foldE (recomputeAt sortJS) changed s = Inr s1" "drawAutopoints s1 = Inr s2"
    and b: "(if doSave then bindE (saveState s2) (\<lambda>(j, s3). Inr s3) else Inr s2) = Inr s'"
    by (auto simp: onRegionsChanged_def bindE_Inr_iff)
  have "sameStructure s2 s'"
    using b saveState_sameStructure by (auto simp: bindE_Inr_iff split: if_splits)
  with foldE_recomputeAt_frame[OF a(1)] drawAutopoints_sameStructure[OF a(2)]
  show ?thesis by (blast intro: sameStructure_trans)
qed

lemma onRegionsChanged_returns:
  assumes perm: "\<And>xs. mset (sortJS xs) = mset xs"
    and pos: "list_all positiveTempo (regions s)"
  shows "\<exists>s'. onRegionsChanged sortJS changed doSave s = Inr s'
    \<and> list_all positiveTempo (regions s')"
proof -
  from foldE_recomputeAt_returns[OF perm pos, of changed] obtain s1 where
    s1: "foldE (recomputeAt sortJS) changed s = Inr s1" "list_all positiveTempo (regions s1)"
    by blast
  from drawAutopoints_returns[OF s1(2)] obtain s2 where s2: "drawAutopoints s1 = Inr s2"
    by blast
  have p2: "list_all positiveTempo (regions s2)"
    using drawAutopoints_frame(2)[OF s2] s1(2) by (rule positiveTempo_withoutAutoBeats)
  from saveState_returns[OF p2] obtain j where
    j: "saveState s2 = Inr (j, s2\<lparr>saveCalls := saveCalls s2 @ [j]\<rparr>)" by blast
  show ?thesis
    using s1 s2 p2 j by (cases doSave) (simp_all add: onRegionsChanged_def)
qed

subsection \<open>Moving a beat\<close>

lemma clampAfter_returns:
  assumes idx: "index (rs ! pos) = pos"
    and nxt: "pos + 1 < length rs \<Longrightarrow> userBeats (rs ! (pos + 1)) \<noteq> []"
  shows "clampAfter fl h rs pos (Suc k) x
    = Inr (case successorTime h rs pos k of
             Some q \<Rightarrow> min x (fl (q - fl MIN_BEAT_SPACING)) | None \<Rightarrow> x)"
proof (cases "k + 1 < length (userBeats (rs ! pos))")
  case True
  then show ?thesis by (simp add: clampAfter_def successorTime_def)
next
  case False
  show ?thesis
  proof (cases "pos + 1 < length rs")
    case True
    from nxt[OF True] obtain b bs where "userBeats (rs ! (pos + 1)) = b # bs"
      by (cases "userBeats (rs ! (pos + 1))") auto
    with False True idx show ?thesis
      by (simp add: clampAfter_def successorTime_def firstBeat_def)
  next
    case F2: False
    with False idx show ?thesis
      by (simp add: clampAfter_def successorTime_def)
  qed
qed

lemma clampBefore_eq:
  "clampBefore fl h rs pos (Some k) x
    = (case predecessorTime h rs pos k of
         Some p \<Rightarrow> max x (fl (p + fl MIN_BEAT_SPACING)) | None \<Rightarrow> x)"
  by (cases k) (auto simp: clampBefore_def predecessorTime_def Let_def last_conv_nth)

lemma clampDuration_eq:
  "index (rs ! pos) = pos \<Longrightarrow>
    clampDuration d rs pos (Suc k) x = (if isFinalBeat rs pos k then min x d else x)"
  by (simp add: clampDuration_def isFinalBeat_def)

lemma final_no_successor:
  "isFinalBeat rs pos k \<Longrightarrow> successorTime h rs pos k = None"
  by (simp add: isFinalBeat_def successorTime_def)

lemma moveBeat_time: "time (beatStore (moveBeat a pos beatIdx c s) a) = c"
  by (simp add: moveBeat_def Let_def)

lemma positiveTempo_startTime [simp]: "positiveTempo (r\<lparr>startTime := x\<rparr>) = positiveTempo r"
  by (simp add: positiveTempo_def)

lemma positiveTempo_endTime [simp]: "positiveTempo (r\<lparr>endTime := x\<rparr>) = positiveTempo r"
  by (simp add: positiveTempo_def)

lemma moveBeat_positive:
  assumes "list_all positiveTempo (regions s)" "pos < length (regions s)"
  shows "list_all positiveTempo (regions (moveBeat a pos beatIdx c s))"
  using assms
  by (auto simp: moveBeat_def Let_def list_all_length nth_list_update)

text \<open>
  The run of \<open>tryMovePoint\<close> on a beat listed at position \<open>k\<close> of its region: the three
  clamps in the order of the source, then the move, then the recompute pass of the phase
  \<open>end\<close>.
\<close>

lemma tryMovePoint_run:
  assumes reg: "userBeatsById s ident = Some a"
    and pos: "regionIndex (beatStore s a) = pos" "pos < length (regions s)"
    and idx: "index (regions s ! pos) = pos"
    and k: "findIndex (\<lambda>b. b = a) (userBeats (regions s ! pos)) = Some k"
    and nxt: "pos + 1 < length (regions s) \<Longrightarrow> userBeats (regions s ! (pos + 1)) \<noteq> []"
    and c: "c = (let c1 = (case predecessorTime (beatStore s) (regions s) pos k of
                            None \<Rightarrow> toTime
                          | Some p \<Rightarrow> max toTime (fl (p + fl MIN_BEAT_SPACING)));
                    c2 = (case successorTime (beatStore s) (regions s) pos k of
                            None \<Rightarrow> c1
                          | Some q \<Rightarrow> min c1 (fl (q - fl MIN_BEAT_SPACING)))
                in if isFinalBeat (regions s) pos k then min c2 (duration s) else c2)"
  shows "tryMovePoint fl sortJS ident toTime what s =
      (if what = End
       then bindE (onRegionsChanged sortJS [pos] True (moveBeat a pos (Some k) c s))
              (\<lambda>s2. Inr (c, s2))
       else Inr (c, moveBeat a pos (Some k) c s))"
proof -
  define cb where "cb = clampBefore fl (beatStore s) (regions s) pos (Some k) toTime"
  define ca where "ca = (case successorTime (beatStore s) (regions s) pos k of
      Some q \<Rightarrow> min cb (fl (q - fl MIN_BEAT_SPACING)) | None \<Rightarrow> cb)"
  have after: "clampAfter fl (beatStore s) (regions s) pos (Suc k) cb = Inr ca"
    unfolding ca_def using idx nxt by (rule clampAfter_returns)
  have cc: "clampDuration (duration s) (regions s) pos (Suc k) ca = c"
    unfolding c clampDuration_eq[OF idx] ca_def cb_def clampBefore_eq
    by (simp add: Let_def split: option.splits)
  show ?thesis
    using reg pos k after cc unfolding cb_def
    by (simp add: tryMovePoint_def Let_def)
qed

text \<open>
  Claim C4 as stated (the returned time keeps the spacing floor to both neighbours) fails
  on the code in two ways. When the neighbours are less than two floors apart, which a
  tempo-change insert allows (it checks only the beat after it), the later clamp wins:
  beat 1 is at 1.0, the tempo-change beat 2 at 1.05 opens region 1, beat 3 is at 1.3;
  moving beat 2 returns the rounded \<open>1.3 - 0.2\<close>, which is less than \<open>1.0 + 0.2\<close>, rounded
  or not. And the bound of a clamp is a rounded sum: with beats at 1 and 2, moving beat 2
  down returns the double nearest to \<open>1 + 0.2\<close>, which is less than 1 plus the floor.
\<close>

theorem C4_counterexample:
  "(case calls sort [AddPoint 1 False, AddPoint (105 / 100) True, AddPoint (13 / 10) False]
          (initialEngine 10) of
      Inr s \<Rightarrow>
        (case tryMovePoint binary64 sort 2 5 Move s of
           Inr (c, s') \<Rightarrow>
             map userBeats (regions s) = [[1], [2, 3]]
             \<and> predecessorTime (beatStore s) (regions s) 1 0 = Some 1
             \<and> successorTime (beatStore s) (regions s) 1 0 = Some (13 / 10)
             \<and> c = binary64 (13 / 10 - binary64 MIN_BEAT_SPACING)
             \<and> c < 1 + MIN_BEAT_SPACING
             \<and> c < binary64 (1 + binary64 MIN_BEAT_SPACING)
         | Inl e \<Rightarrow> False)
    | Inl e \<Rightarrow> False)
   \<and> binary64 MIN_BEAT_SPACING = 3602879701896397 / 2 ^ 54
   \<and> (case calls sort [AddPoint 1 False, AddPoint 2 False] (initialEngine 10) of
        Inr s \<Rightarrow>
          (case tryMovePoint binary64 sort 2 0 Move s of
             Inr (c, s') \<Rightarrow>
               map userBeats (regions s) = [[1, 2]]
               \<and> predecessorTime (beatStore s) (regions s) 0 1 = Some 1
               \<and> successorTime (beatStore s) (regions s) 0 1 = None
               \<and> c = 5404319552844595 / 2 ^ 52
               \<and> c < 1 + binary64 MIN_BEAT_SPACING
           | Inl e \<Rightarrow> False)
      | Inl e \<Rightarrow> False)"
proof -
  obtain s where s: "calls sort [AddPoint 1 False, AddPoint (105 / 100) True,
      AddPoint (13 / 10) False] (initialEngine 10) = Inr s"
    by (simp add: engine_eval)
  then have h: "userBeatsById s 2 = Some 2" "regionIndex (beatStore s 2) = 1"
    "1 < length (regions s)" "index (regions s ! 1) = 1"
    "findIndex (\<lambda>b. b = 2) (userBeats (regions s ! 1)) = Some 0"
    "1 + 1 < length (regions s) \<Longrightarrow> userBeats (regions s ! (1 + 1)) \<noteq> []"
    and ps: "predecessorTime (beatStore s) (regions s) 1 0 = Some 1"
      "successorTime (beatStore s) (regions s) 1 0 = Some (13 / 10)"
      "\<not> isFinalBeat (regions s) 1 0"
    and v: "map userBeats (regions s) = [[1], [2, 3]]"
    by (auto simp add: engine_eval predecessorTime_def successorTime_def isFinalBeat_def)
  define F where "F = binary64 MIN_BEAT_SPACING"
  have F: "198 / 1000 \<le> F" "F \<le> 202 / 1000"
    using binary64_near[of MIN_BEAT_SPACING]
    by (simp_all add: F_def MIN_BEAT_SPACING_def MAX_TEMPO_def)
  have nn: "0 \<le> 1 + F" "0 \<le> 13 / 10 - F"
    using F by linarith+
  have up: "118 / 100 \<le> binary64 (1 + F)" "binary64 (1 + F) \<le> 5"
    using binary64_near[OF nn(1)] F by (simp_all add: algebra_simps)
  have dn: "binary64 (13 / 10 - F) < 118 / 100"
    using binary64_near[OF nn(2)] F by (simp add: algebra_simps)
  define c where "c = binary64 (13 / 10 - F)"
  have cform: "c = (let c1 = (case predecessorTime (beatStore s) (regions s) 1 0 of
                            None \<Rightarrow> 5
                          | Some p \<Rightarrow> max 5 (binary64 (p + binary64 MIN_BEAT_SPACING)));
                    c2 = (case successorTime (beatStore s) (regions s) 1 0 of
                            None \<Rightarrow> c1
                          | Some q \<Rightarrow> min c1 (binary64 (q - binary64 MIN_BEAT_SPACING)))
                in if isFinalBeat (regions s) 1 0 then min c2 (duration s) else c2)"
  proof -
    have "max 5 (binary64 (1 + F)) = 5"
      using up by linarith
    moreover have "min 5 (binary64 (13 / 10 - F)) = binary64 (13 / 10 - F)"
      using dn by linarith
    ultimately have "c = min (max 5 (binary64 (1 + F))) (binary64 (13 / 10 - F))"
      by (simp add: c_def)
    then show ?thesis
      unfolding ps(1,2) option.case Let_def F_def using ps(3) by simp
  qed
  have run: "tryMovePoint binary64 sort 2 5 Move s = Inr (c, moveBeat 2 1 (Some 0) c s)"
    using tryMovePoint_run[OF h cform, of sort Move] by simp
  have "c < 1 + MIN_BEAT_SPACING"
    using dn by (simp add: c_def MIN_BEAT_SPACING_def MAX_TEMPO_def)
  moreover have "c < binary64 (1 + binary64 MIN_BEAT_SPACING)"
    unfolding F_def[symmetric] c_def using up dn by linarith
  ultimately have first: "case calls sort [AddPoint 1 False, AddPoint (105 / 100) True,
        AddPoint (13 / 10) False] (initialEngine 10) of
      Inr s \<Rightarrow>
        (case tryMovePoint binary64 sort 2 5 Move s of
           Inr (c, s') \<Rightarrow>
             map userBeats (regions s) = [[1], [2, 3]]
             \<and> predecessorTime (beatStore s) (regions s) 1 0 = Some 1
             \<and> successorTime (beatStore s) (regions s) 1 0 = Some (13 / 10)
             \<and> c = binary64 (13 / 10 - binary64 MIN_BEAT_SPACING)
             \<and> c < 1 + MIN_BEAT_SPACING
             \<and> c < binary64 (1 + binary64 MIN_BEAT_SPACING)
         | Inl e \<Rightarrow> False)
    | Inl e \<Rightarrow> False"
    using s run ps v by (simp add: c_def F_def)
  have Fv: "F = 3602879701896397 / 2 ^ 54"
    using binary64_fifth by (simp add: F_def MIN_BEAT_SPACING_def MAX_TEMPO_def)
  obtain t where t: "calls sort [AddPoint 1 False, AddPoint 2 False] (initialEngine 10) = Inr t"
    by (simp add: engine_eval)
  then have g: "userBeatsById t 2 = Some 2" "regionIndex (beatStore t 2) = 0"
    "0 < length (regions t)" "index (regions t ! 0) = 0"
    "findIndex (\<lambda>b. b = 2) (userBeats (regions t ! 0)) = Some 1"
    "0 + 1 < length (regions t) \<Longrightarrow> userBeats (regions t ! (0 + 1)) \<noteq> []"
    and pt: "predecessorTime (beatStore t) (regions t) 0 1 = Some 1"
      "successorTime (beatStore t) (regions t) 0 1 = None"
      "isFinalBeat (regions t) 0 1" "duration t = 10"
    and w: "map userBeats (regions t) = [[1, 2]]"
    by (auto simp add: engine_eval predecessorTime_def successorTime_def isFinalBeat_def)
  define b :: real where "b = 5404319552844595 / 2 ^ 52"
  have bv: "binary64 (1 + F) = b"
    unfolding Fv b_def by (rule binary64_one_and_fifth)
  have bform: "b = (let c1 = (case predecessorTime (beatStore t) (regions t) 0 1 of
                            None \<Rightarrow> 0
                          | Some p \<Rightarrow> max 0 (binary64 (p + binary64 MIN_BEAT_SPACING)));
                    c2 = (case successorTime (beatStore t) (regions t) 0 1 of
                            None \<Rightarrow> c1
                          | Some q \<Rightarrow> min c1 (binary64 (q - binary64 MIN_BEAT_SPACING)))
                in if isFinalBeat (regions t) 0 1 then min c2 (duration t) else c2)"
  proof -
    have "b = min (max 0 (binary64 (1 + F))) 10"
      unfolding bv by (simp add: b_def)
    then show ?thesis
      unfolding pt(1,2,4) option.case Let_def F_def using pt(3) by simp
  qed
  have run2: "tryMovePoint binary64 sort 2 0 Move t = Inr (b, moveBeat 2 0 (Some 1) b t)"
    using tryMovePoint_run[OF g bform, of sort Move] by simp
  have "b < 1 + F"
    by (simp add: b_def Fv)
  then have second: "case calls sort [AddPoint 1 False, AddPoint 2 False] (initialEngine 10) of
        Inr s \<Rightarrow>
          (case tryMovePoint binary64 sort 2 0 Move s of
             Inr (c, s') \<Rightarrow>
               map userBeats (regions s) = [[1, 2]]
               \<and> predecessorTime (beatStore s) (regions s) 0 1 = Some 1
               \<and> successorTime (beatStore s) (regions s) 0 1 = None
               \<and> c = 5404319552844595 / 2 ^ 52
               \<and> c < 1 + binary64 MIN_BEAT_SPACING
           | Inl e \<Rightarrow> False)
      | Inl e \<Rightarrow> False"
    using t run2 pt w by (simp add: b_def F_def)
  from first Fv second show ?thesis
    unfolding F_def by blast
qed

text \<open>
  Claim C4, amended. Let the id be registered for a beat that is listed at position \<open>k\<close>
  of the region at the beat's \<open>regionIndex\<close>, in a well-formed state (the region's index
  is its position, a next region has a first beat), and let \<open>fl\<close> be the rounding of the
  machine's addition, subtraction and division (\<open>binary64\<close> for the doubles of the source).
  Then \<open>tryMovePoint\<close> returns for the phases start and move, and for the phase end when the
  sort permutes its input and every region has a positive period. Whenever it returns, the
  beat's stored time is the returned time, and the returned time is the target raised to
  the rounded sum of the predecessor's time and the floor, then lowered to the rounded
  difference of the successor's time and the floor, then lowered to the duration for the
  final beat (a neighbour that does not exist gives no bound). Hence it is at most the
  successor bound, at most the duration for the final beat, and at least the predecessor
  bound unless the successor bound or the duration forced it lower, in which case it
  equals that bound.
\<close>

theorem C4_tryMovePoint_clamp:
  assumes reg: "userBeatsById s ident = Some a"
    and pos: "regionIndex (beatStore s a) = pos" "pos < length (regions s)"
    and idx: "index (regions s ! pos) = pos"
    and k: "findIndex (\<lambda>b. b = a) (userBeats (regions s ! pos)) = Some k"
    and nxt: "pos + 1 < length (regions s) \<Longrightarrow> userBeats (regions s ! (pos + 1)) \<noteq> []"
  shows "(what \<noteq> End \<or> ((\<forall>xs. mset (sortJS xs) = mset xs) \<and> list_all positiveTempo (regions s))
        \<longrightarrow> (\<exists>c s'. tryMovePoint fl sortJS ident toTime what s = Inr (c, s')))
    \<and> (\<forall>c s'. tryMovePoint fl sortJS ident toTime what s = Inr (c, s') \<longrightarrow>
          time (beatStore s' a) = c
        \<and> c = (let c1 = (case predecessorTime (beatStore s) (regions s) pos k of
                             None \<Rightarrow> toTime
                           | Some p \<Rightarrow> max toTime (fl (p + fl MIN_BEAT_SPACING)));
                     c2 = (case successorTime (beatStore s) (regions s) pos k of
                             None \<Rightarrow> c1
                           | Some q \<Rightarrow> min c1 (fl (q - fl MIN_BEAT_SPACING)))
                 in if isFinalBeat (regions s) pos k then min c2 (duration s) else c2)
        \<and> (\<forall>q. successorTime (beatStore s) (regions s) pos k = Some q
              \<longrightarrow> c \<le> fl (q - fl MIN_BEAT_SPACING))
        \<and> (isFinalBeat (regions s) pos k \<longrightarrow> c \<le> duration s)
        \<and> (\<forall>p. predecessorTime (beatStore s) (regions s) pos k = Some p
              \<longrightarrow> fl (p + fl MIN_BEAT_SPACING) \<le> c
                \<or> (\<exists>q. successorTime (beatStore s) (regions s) pos k = Some q
                       \<and> c = fl (q - fl MIN_BEAT_SPACING))
                \<or> (isFinalBeat (regions s) pos k \<and> c = duration s)))"
proof -
  define c0 where "c0 = (let c1 = (case predecessorTime (beatStore s) (regions s) pos k of
                             None \<Rightarrow> toTime
                           | Some p \<Rightarrow> max toTime (fl (p + fl MIN_BEAT_SPACING)));
                     c2 = (case successorTime (beatStore s) (regions s) pos k of
                             None \<Rightarrow> c1
                           | Some q \<Rightarrow> min c1 (fl (q - fl MIN_BEAT_SPACING)))
                 in if isFinalBeat (regions s) pos k then min c2 (duration s) else c2)"
  define s1 where "s1 = moveBeat a pos (Some k) c0 s"
  have run: "tryMovePoint fl sortJS ident toTime what s =
      (if what = End
       then bindE (onRegionsChanged sortJS [pos] True s1) (\<lambda>s2. Inr (c0, s2))
       else Inr (c0, s1))"
    unfolding s1_def using reg pos idx k nxt c0_def by (rule tryMovePoint_run)
  have succ: "c0 \<le> fl (q - fl MIN_BEAT_SPACING)"
    if "successorTime (beatStore s) (regions s) pos k = Some q" for q
    using that final_no_successor[of "regions s" pos k "beatStore s"]
    by (auto simp: c0_def Let_def)
  have fin: "c0 \<le> duration s" if "isFinalBeat (regions s) pos k"
    using that by (simp add: c0_def Let_def)
  have pred: "fl (p + fl MIN_BEAT_SPACING) \<le> c0
      \<or> (\<exists>q. successorTime (beatStore s) (regions s) pos k = Some q
             \<and> c0 = fl (q - fl MIN_BEAT_SPACING))
      \<or> (isFinalBeat (regions s) pos k \<and> c0 = duration s)"
    if "predecessorTime (beatStore s) (regions s) pos k = Some p" for p
  proof (cases "isFinalBeat (regions s) pos k")
    case True
    with final_no_successor[OF True, of "beatStore s"] that show ?thesis
      by (auto simp: c0_def Let_def min_def max_def)
  next
    case False
    with that show ?thesis
      by (auto simp: c0_def Let_def min_def max_def split: option.splits)
  qed
  have stored: "time (beatStore s' a) = c0"
    if "tryMovePoint fl sortJS ident toTime what s = Inr (c, s')" for c s'
  proof (cases "what = End")
    case True
    with that run have "bindE (onRegionsChanged sortJS [pos] True s1) (\<lambda>s2. Inr (c0, s2)) = Inr (c, s')"
      by simp
    then obtain s2 where "onRegionsChanged sortJS [pos] True s1 = Inr s2" "s' = s2"
      by (auto simp: bindE_Inr_iff)
    with sameStructure_time[OF onRegionsChanged_frame, of sortJS "[pos]" True s1 s2 a]
    show ?thesis by (simp add: s1_def moveBeat_time)
  next
    case False
    with that run show ?thesis by (auto simp: s1_def moveBeat_time)
  qed
  have cval: "c = c0" if "tryMovePoint fl sortJS ident toTime what s = Inr (c, s')" for c s'
  proof -
    from that run have "(if what = End
       then bindE (onRegionsChanged sortJS [pos] True s1) (\<lambda>s2. Inr (c0, s2))
       else Inr (c0, s1)) = Inr (c, s')"
      by simp
    then show ?thesis by (auto simp: bindE_Inr_iff split: if_splits)
  qed
  have returns: "\<exists>c s'. tryMovePoint fl sortJS ident toTime what s = Inr (c, s')"
    if "what \<noteq> End \<or> ((\<forall>xs. mset (sortJS xs) = mset xs) \<and> list_all positiveTempo (regions s))"
  proof (cases "what = End")
    case True
    with that have perm: "\<And>xs. mset (sortJS xs) = mset xs"
      and p: "list_all positiveTempo (regions s)" by auto
    have "list_all positiveTempo (regions s1)"
      unfolding s1_def using p pos(2) by (rule moveBeat_positive)
    from onRegionsChanged_returns[OF perm this, of "[pos]" True] obtain s2 where
      "onRegionsChanged sortJS [pos] True s1 = Inr s2" by blast
    with run True show ?thesis by simp
  next
    case False
    with run show ?thesis by simp
  qed
  have all: "time (beatStore s' a) = c \<and> c = c0
        \<and> (\<forall>q. successorTime (beatStore s) (regions s) pos k = Some q
              \<longrightarrow> c \<le> fl (q - fl MIN_BEAT_SPACING))
        \<and> (isFinalBeat (regions s) pos k \<longrightarrow> c \<le> duration s)
        \<and> (\<forall>p. predecessorTime (beatStore s) (regions s) pos k = Some p
              \<longrightarrow> fl (p + fl MIN_BEAT_SPACING) \<le> c
                \<or> (\<exists>q. successorTime (beatStore s) (regions s) pos k = Some q
                       \<and> c = fl (q - fl MIN_BEAT_SPACING))
                \<or> (isFinalBeat (regions s) pos k \<and> c = duration s))"
    if r: "tryMovePoint fl sortJS ident toTime what s = Inr (c, s')" for c s'
    unfolding cval[OF r] using stored[OF r] succ fin pred by blast
  show ?thesis
    using returns all unfolding c0_def by blast
qed

theorem C4_witness:
  "case calls sort [AddPoint 1 False, AddPoint 2 False, AddPoint 3 False] (initialEngine 10) of
     Inr s \<Rightarrow>
       map userBeats (regions s) = [[1, 2, 3]]
       \<and> map (\<lambda>a. time (beatStore s a)) [1, 2, 3] = [1, 2, 3]
       \<and> (\<exists>c s'. tryMovePoint binary64 sort 2 5 End s = Inr (c, s')
            \<and> time (beatStore s' 2) = c
            \<and> c = min (max 5 (binary64 (1 + binary64 MIN_BEAT_SPACING)))
                     (binary64 (3 - binary64 MIN_BEAT_SPACING))
            \<and> c \<le> binary64 (3 - binary64 MIN_BEAT_SPACING)
            \<and> binary64 (1 + binary64 MIN_BEAT_SPACING) \<le> c)
   | Inl e \<Rightarrow> False"
proof -
  obtain s where s: "calls sort [AddPoint 1 False, AddPoint 2 False, AddPoint 3 False] (initialEngine 10) = Inr s"
    by (simp add: engine_eval)
  then have h: "userBeatsById s 2 = Some 2" "regionIndex (beatStore s 2) = 0"
    "0 < length (regions s)" "index (regions s ! 0) = 0"
    "findIndex (\<lambda>b. b = 2) (userBeats (regions s ! 0)) = Some 1"
    "0 + 1 < length (regions s) \<Longrightarrow> userBeats (regions s ! (0 + 1)) \<noteq> []"
    and p: "list_all positiveTempo (regions s)"
    and ps: "predecessorTime (beatStore s) (regions s) 0 1 = Some 1"
      "successorTime (beatStore s) (regions s) 0 1 = Some 3"
      "\<not> isFinalBeat (regions s) 0 1"
    and v: "map userBeats (regions s) = [[1, 2, 3]]"
      "map (\<lambda>a. time (beatStore s a)) [1, 2, 3] = [1, 2, 3]"
    by (auto simp add: engine_eval positiveTempo_def predecessorTime_def successorTime_def
        isFinalBeat_def)
  have perm: "\<forall>xs :: real list. mset (sort xs) = mset xs" by simp
  define F where "F = binary64 MIN_BEAT_SPACING"
  have F: "198 / 1000 \<le> F" "F \<le> 202 / 1000"
    using binary64_near[of MIN_BEAT_SPACING]
    by (simp_all add: F_def MIN_BEAT_SPACING_def MAX_TEMPO_def)
  have nn: "0 \<le> 1 + F" "0 \<le> 3 - F"
    using F by linarith+
  have bnd: "binary64 (1 + F) \<le> binary64 (3 - F)" "binary64 (3 - F) \<le> 5"
    using binary64_near[OF nn(1)] binary64_near[OF nn(2)] F by (simp_all add: algebra_simps)
  note t = C4_tryMovePoint_clamp[of s 2 2 0 1 End sort binary64 5, OF h]
  from t perm p obtain c s' where r: "tryMovePoint binary64 sort 2 5 End s = Inr (c, s')"
    by blast
  with t ps have "time (beatStore s' 2) = c"
    "c = min (max 5 (binary64 (1 + binary64 MIN_BEAT_SPACING)))
           (binary64 (3 - binary64 MIN_BEAT_SPACING))"
    by (auto simp: Let_def)
  moreover from this bnd have "c \<le> binary64 (3 - binary64 MIN_BEAT_SPACING)"
    "binary64 (1 + binary64 MIN_BEAT_SPACING) \<le> c"
    by (simp_all add: F_def)
  ultimately show ?thesis
    using r s v by auto
qed

subsection \<open>Saving and loading\<close>


















lemma positiveTempo_index [simp]: "positiveTempo (r\<lparr>index := i\<rparr>) = positiveTempo r"
  by (simp add: positiveTempo_def)






subsection \<open>Which errors a call can end in, and what a rejection leaves\<close>

text \<open>
  \<open>deletePoint\<close> throws "beat by id is null" exactly when the reverse index has no entry
  for the id, and an \<open>addPoint\<close> that is rejected on an engine that already has a region
  returns the state it was given.
\<close>

lemma bindE_Inl_iff:
  "bindE m f = Inl e \<longleftrightarrow> m = Inl e \<or> (\<exists>x. m = Inr x \<and> f x = Inl e)"
  by (cases m) simp_all

lemma forLoop_error: "forLoop t upTo period = Inl e \<Longrightarrow> e = Diverges"
  by (simp add: forLoop_def split: if_splits)

lemma tappedLoops_error: "tappedLoops period regionEnd ts = Inl e \<Longrightarrow> e = Diverges"
  by (induction period regionEnd ts rule: tappedLoops.induct)
     (auto simp: bindE_Inl_iff dest: forLoop_error)

lemma computeAutoBeats_error:
  "computeAutoBeats h r = Inl e \<Longrightarrow> e = Diverges \<or> e = NotAReal"
  by (auto simp: computeAutoBeats_def split: Tempo.splits option.splits TappedValue.splits if_splits
      dest: forLoop_error tappedLoops_error)

lemma drawRegions_error:
  "drawRegions h drawStart drawEnd rs nid = Inl e \<Longrightarrow> e = Diverges \<or> e = NotAReal"
proof (induction rs arbitrary: nid)
  case Nil
  then show ?case by simp
next
  case (Cons r rs)
  show ?case
  proof (cases "drawStart \<le> endTime r \<and> startTime r < drawEnd")
    case True
    with Cons.prems consider (a) "computeAutoBeats h r = Inl e"
      | (b) ts where "(case projectRegion drawStart drawEnd r ts nid of (r', nid') \<Rightarrow>
          bindE (drawRegions h drawStart drawEnd rs nid') (\<lambda>(rs', n). Inr (r' # rs', n)))
          = Inl e"
      by (auto simp: bindE_Inl_iff)
    then show ?thesis
    proof cases
      case a
      then show ?thesis by (rule computeAutoBeats_error)
    next
      case b
      obtain r1 n1 where "projectRegion drawStart drawEnd r ts nid = (r1, n1)"
        by (cases "projectRegion drawStart drawEnd r ts nid")
      with b have "drawRegions h drawStart drawEnd rs n1 = Inl e"
        by (auto simp: bindE_Inl_iff)
      then show ?thesis by (rule Cons.IH)
    qed
  next
    case False
    with Cons.prems have "drawRegions h drawStart drawEnd rs nid = Inl e"
      by (auto simp: bindE_Inl_iff split: prod.splits)
    then show ?thesis by (rule Cons.IH)
  qed
qed

lemma mapE_error:
  "mapE f xs = Inl e \<Longrightarrow> \<exists>x\<in>set xs. f x = Inl e"
  by (induction xs) (auto simp: bindE_Inl_iff)

lemma saveState_error: "saveState s = Inl e \<Longrightarrow> e = Diverges \<or> e = NotAReal"
proof -
  assume "saveState s = Inl e"
  then have "mapE (savedRegion (beatStore s)) (regions s) = Inl e"
    by (auto simp: saveState_def bindE_Inl_iff)
  from mapE_error[OF this] obtain r where "savedRegion (beatStore s) r = Inl e" by blast
  then have "computeAutoBeats (beatStore s) r = Inl e"
    by (auto simp: savedRegion_def bindE_Inl_iff)
  then show ?thesis by (rule computeAutoBeats_error)
qed

lemma recomputeAt_error: "recomputeAt sortJS i s = Inl e \<Longrightarrow> e = NotAReal"
  by (auto simp: recomputeAt_def recomputePhaseOffset_def Let_def bindE_Inl_iff
      split: if_splits Tempo.splits)

lemma foldE_recomputeAt_error: "foldE (recomputeAt sortJS) is s = Inl e \<Longrightarrow> e = NotAReal"
  by (induction "is" arbitrary: s) (auto simp: bindE_Inl_iff dest: recomputeAt_error)

lemma onRegionsChanged_error:
  assumes "onRegionsChanged sortJS changed doSave s = Inl e"
  shows "e = Diverges \<or> e = NotAReal"
proof -
  from assms consider "foldE (recomputeAt sortJS) changed s = Inl e"
    | s1 where "drawAutopoints s1 = Inl e"
    | s2 where "saveState s2 = Inl e"
    by (auto simp: onRegionsChanged_def bindE_Inl_iff split: if_splits)
  then show ?thesis
  proof cases
    case 1
    then show ?thesis by (auto dest: foldE_recomputeAt_error)
  next
    case 2
    then show ?thesis
      by (auto simp: drawAutopoints_def bindE_Inl_iff dest: drawRegions_error)
  next
    case 3
    then show ?thesis by (rule saveState_error)
  qed
qed

lemma deletePoint_abort_iff:
  "deletePoint sortJS ident s = Inl BeatByIdNull \<longleftrightarrow> userBeatsById s ident = None"
proof
  assume "userBeatsById s ident = None"
  then show "deletePoint sortJS ident s = Inl BeatByIdNull"
    by (simp add: deletePoint_def)
next
  assume a: "deletePoint sortJS ident s = Inl BeatByIdNull"
  show "userBeatsById s ident = None"
  proof (rule ccontr)
    assume "userBeatsById s ident \<noteq> None"
    then obtain b where b: "userBeatsById s ident = Some b" by auto
    from a b consider "mergeIntoPrevious (regionIndex (beatStore s b)) s = Inl BeatByIdNull"
      | sc where "finishDelete sortJS sc = Inl BeatByIdNull"
      by (auto simp: deletePoint_def Let_def bindE_Inl_iff split: if_splits)
    then show False
    proof cases
      case 1
      then show False by (simp add: mergeIntoPrevious_def Let_def split: if_splits)
    next
      case 2
      then show False by (auto simp: finishDelete_def dest: onRegionsChanged_error)
    qed
  qed
qed

lemma addPoint_rejected_unchanged:
  assumes "regions s \<noteq> []" "addPoint sortJS t tc s = Inr (Rejected, s')"
  shows "s' = s"
proof -
  from assms(1) have e: "ensureRegion t s = s" by (simp add: ensureRegion_def)
  have f: "finishAdd sortJS sc \<noteq> Inr (Rejected, s')" for sc
    by (auto simp: finishAdd_def bindE_Inr_iff)
  have g: "bindE (splitRegion t ci k s) (finishAdd sortJS) \<noteq> Inr (Rejected, s')" for ci k
    using f by (auto simp: bindE_Inr_iff)
  from assms(2) show ?thesis
    unfolding addPoint_def e Let_def
    by (auto simp: bindE_Inr_iff f g split: option.splits jsref.splits if_splits)
qed


end
